theory Spec2Isabelle
  imports Complex_Main
begin

section \<open>RateLimiter (src/src/RateLimiter.ts)\<close>

text \<open>
  The limiter is a class with a read-only configuration and three mutable fields.
  Timestamps are the integers returned by \<^verbatim>\<open>Date.now()\<close>; the numeric configuration
  fields are modelled as integers as well (the specification types the capacity as an
  integer and the interval as a duration in milliseconds). \<^verbatim>\<open>minDelayMs\<close> is optional.

  Every \<^verbatim>\<open>Date.now()\<close> of the source is a separate clock reading and is a separate
  argument of the model, in the order in which the source reads the clock.

  For \<^verbatim>\<open>intervalMs = 0\<close> the quotient \<^verbatim>\<open>elapsed / intervalMs\<close> of the source is
  \<^verbatim>\<open>Infinity\<close> or \<^verbatim>\<open>NaN\<close>, which no integer represents; for every other divisor
  \<^verbatim>\<open>Math.floor(a / b)\<close> is the floored quotient \<open>a div b\<close>. Results that depend on
  the quotient are stated for \<open>0 < intervalMs\<close>.
\<close>

record config =
  tokensPerInterval :: int
  intervalMs :: int
  minDelayMs :: "int option"

record rl_state =
  tokens :: int
  lastRefill :: int
  lastAcquire :: int

text \<open>The constructor; \<open>now\<close> is its \<^verbatim>\<open>Date.now()\<close>.\<close>

definition rl_init :: "config \<Rightarrow> int \<Rightarrow> rl_state" where
  "rl_init cfg now =
     \<lparr>tokens = tokensPerInterval cfg, lastRefill = now, lastAcquire = 0\<rparr>"

text \<open>\<^verbatim>\<open>private refill()\<close>.\<close>

definition refill :: "config \<Rightarrow> int \<Rightarrow> rl_state \<Rightarrow> rl_state" where
  "refill cfg now s =
     (let elapsed = now - lastRefill s in
      if elapsed \<ge> intervalMs cfg then
        (let intervals = elapsed div intervalMs cfg in
         s\<lparr>tokens := min (tokensPerInterval cfg)
                        (tokens s + intervals * tokensPerInterval cfg),
           lastRefill := now\<rparr>)
      else s)"

text \<open>
  \<^verbatim>\<open>tryAcquire()\<close>. \<open>tr\<close> is the clock reading of \<^verbatim>\<open>refill()\<close>, \<open>tc\<close> the one of
  the minimum-delay check, \<open>ta\<close> the one stored in \<^verbatim>\<open>lastAcquire\<close>. The test
  \<^verbatim>\<open>if (this.config.minDelayMs)\<close> is a truthiness test: it fails for an absent value and
  for \<open>0\<close>.
\<close>

definition tryAcquire :: "config \<Rightarrow> int \<Rightarrow> int \<Rightarrow> int \<Rightarrow> rl_state \<Rightarrow> bool \<times> rl_state" where
  "tryAcquire cfg tr tc ta s0 =
     (let s = refill cfg tr s0 in
      if tokens s \<ge> 1 then
        (case minDelayMs cfg of
           Some d \<Rightarrow>
             if d \<noteq> 0 \<and> tc - lastAcquire s < d then (False, s)
             else (True, s\<lparr>tokens := tokens s - 1, lastAcquire := ta\<rparr>)
         | None \<Rightarrow> (True, s\<lparr>tokens := tokens s - 1, lastAcquire := ta\<rparr>))
      else (False, s))"

text \<open>\<^verbatim>\<open>getTokens()\<close>.\<close>

definition getTokens :: "config \<Rightarrow> int \<Rightarrow> rl_state \<Rightarrow> int \<times> rl_state" where
  "getTokens cfg tr s0 = (let s = refill cfg tr s0 in (tokens s, s))"

text \<open>
  One iteration of the \<^verbatim>\<open>while (true)\<close> loop of \<^verbatim>\<open>acquire()\<close>, up to its
  \<^verbatim>\<open>await\<close> or its \<^verbatim>\<open>return\<close>. The iteration either returns (\<open>Admitted\<close>) or
  suspends on \<^verbatim>\<open>sleep(ms)\<close>; the two sleeps are kept apart by the branch that computes
  them. \<open>tr\<close> is the clock reading of \<^verbatim>\<open>refill()\<close>, \<open>tc\<close> the one of the
  minimum-delay check, \<open>te\<close> the last one of the iteration (stored in
  \<^verbatim>\<open>lastAcquire\<close> on admission, used for \<^verbatim>\<open>timeUntilRefill\<close> otherwise).
\<close>

datatype acquire_outcome = Admitted | SleepSpacing int | SleepRefill int

definition acquire_iter ::
    "config \<Rightarrow> int \<Rightarrow> int \<Rightarrow> int \<Rightarrow> rl_state \<Rightarrow> acquire_outcome \<times> rl_state" where
  "acquire_iter cfg tr tc te s0 =
     (let s = refill cfg tr s0;
          spacing = (case minDelayMs cfg of
                       Some d \<Rightarrow>
                         (let timeSinceLastAcquire = tc - lastAcquire s in
                          if d \<noteq> 0 \<and> timeSinceLastAcquire < d
                          then Some (d - timeSinceLastAcquire) else None)
                     | None \<Rightarrow> None)
      in case spacing of
           Some ms \<Rightarrow> (SleepSpacing ms, s)
         | None \<Rightarrow>
             if tokens s \<ge> 1 then (Admitted, s\<lparr>tokens := tokens s - 1, lastAcquire := te\<rparr>)
             else (let timeUntilRefill = intervalMs cfg - (te - lastRefill s)
                   in (SleepRefill (max timeUntilRefill 100), s)))"

text \<open>
  \<^verbatim>\<open>acquire()\<close> as a whole, for one caller. The synchronous part of an iteration reads
  one clock value \<open>now\<close>; \<^verbatim>\<open>sleep(ms)\<close> resumes no earlier than \<open>ms\<close> later, and the
  list gives, for each sleep, by how much later (its length bounds the number of sleeps,
  so \<open>None\<close> is "still waiting when the list ends"). The result is the time of return
  and the state then.
\<close>

fun acquire :: "config \<Rightarrow> nat list \<Rightarrow> int \<Rightarrow> rl_state \<Rightarrow> (int \<times> rl_state) option" where
  "acquire cfg [] now s =
     (case acquire_iter cfg now now now s of
        (Admitted, s') \<Rightarrow> Some (now, s')
      | (SleepSpacing ms, s') \<Rightarrow> None
      | (SleepRefill ms, s') \<Rightarrow> None)"
| "acquire cfg (l # late) now s =
     (case acquire_iter cfg now now now s of
        (Admitted, s') \<Rightarrow> Some (now, s')
      | (SleepSpacing ms, s') \<Rightarrow> acquire cfg late (now + ms + int l) s'
      | (SleepRefill ms, s') \<Rightarrow> acquire cfg late (now + ms + int l) s')"

text \<open>
  Callers interleave only at suspension points, so a history of the limiter is a sequence
  of calls of \<^verbatim>\<open>tryAcquire\<close> and \<^verbatim>\<open>getTokens\<close> and of iterations of
  \<^verbatim>\<open>acquire\<close> (of any number of callers), each with its own clock readings.
\<close>

datatype rl_call = TryAcquire int int int | AcquireIter int int int | GetTokens int

fun rl_step :: "config \<Rightarrow> rl_call \<Rightarrow> rl_state \<Rightarrow> rl_state" where
  "rl_step cfg (TryAcquire tr tc ta) s = snd (tryAcquire cfg tr tc ta s)"
| "rl_step cfg (AcquireIter tr tc te) s = snd (acquire_iter cfg tr tc te s)"
| "rl_step cfg (GetTokens tr) s = snd (getTokens cfg tr s)"

definition rl_run :: "config \<Rightarrow> rl_call list \<Rightarrow> rl_state \<Rightarrow> rl_state" where
  "rl_run cfg calls s = foldl (\<lambda>s c. rl_step cfg c s) s calls"

text \<open>The bound on \<^verbatim>\<open>tokens\<close> that the specification states as an invariant.\<close>

definition token_bound :: "config \<Rightarrow> rl_state \<Rightarrow> bool" where
  "token_bound cfg s = (0 \<le> tokens s \<and> tokens s \<le> tokensPerInterval cfg)"

text \<open>
  Consecutive calls of \<^verbatim>\<open>tryAcquire()\<close>, one per list element, each reading the clock
  value given for it; the results in order (as in the first test of
  \<^verbatim>\<open>RateLimiter.test.ts\<close>).
\<close>

fun tryAcquire_seq :: "config \<Rightarrow> int list \<Rightarrow> rl_state \<Rightarrow> bool list \<times> rl_state" where
  "tryAcquire_seq cfg [] s = ([], s)"
| "tryAcquire_seq cfg (t # ts) s =
     (case tryAcquire cfg t t t s of
        (b, s') \<Rightarrow> (case tryAcquire_seq cfg ts s' of (bs, s'') \<Rightarrow> (b # bs, s'')))"

text \<open>
  The minimum-delay test of \<^verbatim>\<open>tryAcquire\<close> and \<^verbatim>\<open>acquire\<close> at clock reading
  \<open>t\<close>, as a predicate: it holds when the test lets the call through.
\<close>

definition spacing_ok :: "config \<Rightarrow> int \<Rightarrow> rl_state \<Rightarrow> bool" where
  "spacing_ok cfg t s =
     (case minDelayMs cfg of
        None \<Rightarrow> True
      | Some d \<Rightarrow> \<not> (d \<noteq> 0 \<and> t - lastAcquire s < d))"

text \<open>The limiters that \<^verbatim>\<open>RateLimiter.test.ts\<close> constructs.\<close>

definition limiter3 :: config where
  "limiter3 = \<lparr>tokensPerInterval = 3, intervalMs = 60000, minDelayMs = None\<rparr>"

definition limiter_spaced :: config where
  "limiter_spaced = \<lparr>tokensPerInterval = 10, intervalMs = 60000, minDelayMs = Some 100\<rparr>"

definition limiter2 :: config where
  "limiter2 = \<lparr>tokensPerInterval = 2, intervalMs = 200, minDelayMs = None\<rparr>"

definition limiter1 :: config where
  "limiter1 = \<lparr>tokensPerInterval = 1, intervalMs = 200, minDelayMs = None\<rparr>"

section \<open>TaskQueue (src/unnamed/part\_000)\<close>

text \<open>
  The class has the fields \<^verbatim>\<open>queue\<close>, \<^verbatim>\<open>running\<close>, \<^verbatim>\<open>concurrency\<close> and
  \<^verbatim>\<open>delayMs\<close>. The rest of the state record is the part of the JavaScript runtime the
  queue lives in: the calls of \<^verbatim>\<open>process()\<close> suspended at \<^verbatim>\<open>await task()\<close>
  (\<open>executing\<close>) and at the delay (\<open>delaying\<close>), the promises returned by
  \<^verbatim>\<open>add\<close> that have settled (\<open>settled\<close>), and two observations: the order in which
  tasks were started (\<open>started\<close>) and the number of calls of \<^verbatim>\<open>add\<close> so far
  (\<open>added\<close>). A task is named by the number of the \<^verbatim>\<open>add\<close> call that queued it,
  counting from 0.
\<close>

record tq_options =
  opt_concurrency :: "int option"
  opt_delayMs :: "int option"

datatype ('v, 'e) result = Fulfilled 'v | Rejected 'e

record ('v, 'e) tq_state =
  queue :: "nat list"
  running :: int
  concurrency :: int
  delayMs :: int
  executing :: "nat list"
  delaying :: "nat list"
  settled :: "nat \<Rightarrow> ('v, 'e) result option"
  started :: "nat list"
  added :: nat

text \<open>The constructor: \<^verbatim>\<open>options.concurrency || 1\<close> and \<^verbatim>\<open>options.delayMs || 0\<close>.\<close>

definition tq_init :: "tq_options \<Rightarrow> ('v, 'e) tq_state" where
  "tq_init options =
     \<lparr>queue = [], running = 0,
      concurrency = (case opt_concurrency options of
                       Some c \<Rightarrow> if c \<noteq> 0 then c else 1 | None \<Rightarrow> 1),
      delayMs = (case opt_delayMs options of
                   Some d \<Rightarrow> if d \<noteq> 0 then d else 0 | None \<Rightarrow> 0),
      executing = [], delaying = [], settled = (\<lambda>_. None), started = [], added = 0\<rparr>"

text \<open>
  \<^verbatim>\<open>process()\<close> up to its first \<^verbatim>\<open>await\<close>: the guard, \<^verbatim>\<open>running++\<close>,
  \<^verbatim>\<open>queue.shift()\<close> and the call of the task. The \<^verbatim>\<open>else\<close> branch is the one for
  \<^verbatim>\<open>shift()\<close> returning \<^verbatim>\<open>undefined\<close>.
\<close>

definition process :: "('v, 'e) tq_state \<Rightarrow> ('v, 'e) tq_state" where
  "process s =
     (if running s \<ge> concurrency s \<or> length (queue s) = 0 then s
      else (let s1 = s\<lparr>running := running s + 1\<rparr> in
            case queue s1 of
              task # rest \<Rightarrow>
                s1\<lparr>queue := rest, executing := executing s1 @ [task],
                   started := started s1 @ [task]\<rparr>
            | [] \<Rightarrow> s1\<lparr>running := running s1 - 1\<rparr>))"

text \<open>
  The closure that \<^verbatim>\<open>add\<close> pushes, from the point where the caller's task has
  completed with \<open>r\<close>: \<^verbatim>\<open>try { resolve(await task()) } catch (err) { reject(err) }\<close>.
  It settles the promise of \<^verbatim>\<open>add\<close> and itself completes normally or abruptly.
\<close>

datatype completion = Normal | Abrupt

definition wrapper ::
    "nat \<Rightarrow> ('v, 'e) result \<Rightarrow> ('v, 'e) tq_state \<Rightarrow> completion \<times> ('v, 'e) tq_state" where
  "wrapper i r s =
     (case r of
        Fulfilled v \<Rightarrow> (Normal, s\<lparr>settled := (settled s)(i \<mapsto> Fulfilled v)\<rparr>)
      | Rejected err \<Rightarrow> (Normal, s\<lparr>settled := (settled s)(i \<mapsto> Rejected err)\<rparr>))"

text \<open>The end of \<^verbatim>\<open>process()\<close>: \<^verbatim>\<open>this.running--; this.process()\<close>.\<close>

definition release :: "('v, 'e) tq_state \<Rightarrow> ('v, 'e) tq_state" where
  "release s = process (s\<lparr>running := running s - 1\<rparr>)"

text \<open>
  \<^verbatim>\<open>process()\<close> resumed after \<^verbatim>\<open>await task()\<close> for task \<open>i\<close>. There is no
  \<^verbatim>\<open>try\<close> around the \<^verbatim>\<open>await\<close>: if the closure completed abruptly, nothing below
  the \<^verbatim>\<open>await\<close> would run.
\<close>

definition resume :: "nat \<Rightarrow> completion \<Rightarrow> ('v, 'e) tq_state \<Rightarrow> ('v, 'e) tq_state" where
  "resume i c s =
     (let s1 = s\<lparr>executing := remove1 i (executing s)\<rparr> in
      case c of
        Abrupt \<Rightarrow> s1
      | Normal \<Rightarrow>
          if delayMs s1 > 0 then s1\<lparr>delaying := delaying s1 @ [i]\<rparr>
          else release s1)"

text \<open>
  The events of a queue: a call of \<^verbatim>\<open>add\<close> (push, then \<^verbatim>\<open>process()\<close>), the
  completion of a started task with a result, and the timer of a delay. An event for a
  task that is not in the matching phase does not occur; the step leaves the state as it
  is.

  The completion of a task is one step: the closure settles the promise and
  \<^verbatim>\<open>process()\<close> resumes. In the source the resumption is a later microtask, and a
  caller woken by the promise can call \<^verbatim>\<open>add\<close> in between; that \<^verbatim>\<open>add\<close> finds
  \<^verbatim>\<open>queue\<close>, \<^verbatim>\<open>running\<close> and \<^verbatim>\<open>concurrency\<close> as they were before the
  completion, and no step reads \<open>settled\<close>, so it acts as an \<open>Add\<close> placed before the
  \<open>Settle\<close>.
\<close>

datatype ('v, 'e) tq_event = Add | Settle nat "('v, 'e) result" | Timer nat

fun tq_step :: "('v, 'e) tq_event \<Rightarrow> ('v, 'e) tq_state \<Rightarrow> ('v, 'e) tq_state" where
  "tq_step Add s = process (s\<lparr>queue := queue s @ [added s], added := Suc (added s)\<rparr>)"
| "tq_step (Settle i r) s =
     (if i \<in> set (executing s)
      then (case wrapper i r s of (c, s') \<Rightarrow> resume i c s')
      else s)"
| "tq_step (Timer i) s =
     (if i \<in> set (delaying s)
      then release (s\<lparr>delaying := remove1 i (delaying s)\<rparr>)
      else s)"

definition tq_run :: "('v, 'e) tq_event list \<Rightarrow> ('v, 'e) tq_state \<Rightarrow> ('v, 'e) tq_state" where
  "tq_run evs s = foldl (\<lambda>s e. tq_step e s) s evs"

text \<open>\<^verbatim>\<open>size()\<close>.\<close>

definition tq_size :: "('v, 'e) tq_state \<Rightarrow> nat" where
  "tq_size s = length (queue s)"

text \<open>
  \<^verbatim>\<open>drain()\<close>: the loop tests the queue, sleeps 100 ms and tests again. Each list
  element holds the events of the queue that occur during one sleep; \<open>None\<close> is "still
  polling when the list ends". The result is the list of the sleeps made and the state
  at the return.
\<close>

fun drain :: "('v, 'e) tq_event list list \<Rightarrow> ('v, 'e) tq_state
    \<Rightarrow> (int list \<times> ('v, 'e) tq_state) option" where
  "drain [] s =
     (if length (queue s) > 0 \<or> running s > 0 then None else Some ([], s))"
| "drain (evs # rest) s =
     (if length (queue s) > 0 \<or> running s > 0
      then (case drain rest (tq_run evs s) of
              None \<Rightarrow> None
            | Some (ws, s') \<Rightarrow> Some (100 # ws, s'))
      else Some ([], s))"

text \<open>
  The accounting of the slots: \<^verbatim>\<open>running\<close> counts the calls of \<^verbatim>\<open>process()\<close> that
  are suspended at a task or at a delay, and stays between 0 and \<^verbatim>\<open>concurrency\<close>.
\<close>

definition slots_ok :: "('v, 'e) tq_state \<Rightarrow> bool" where
  "slots_ok s =
     (0 \<le> running s \<and> running s \<le> concurrency s \<and>
      running s = int (length (executing s)) + int (length (delaying s)))"

text \<open>
  The queue does not stall: a task waits in \<^verbatim>\<open>queue\<close> only while every slot is
  taken.
\<close>

definition work_conserving :: "('v, 'e) tq_state \<Rightarrow> bool" where
  "work_conserving s = (queue s = [] \<or> concurrency s \<le> running s)"

text \<open>
  The queues of the examples: the one of the class comment (two slots, a delay of one
  second) and a queue with one slot and no delay. Results are strings.
\<close>

definition queue2 :: "(string, string) tq_state" where
  "queue2 = tq_init \<lparr>opt_concurrency = Some 2, opt_delayMs = Some 1000\<rparr>"

definition queue1 :: "(string, string) tq_state" where
  "queue1 = tq_init \<lparr>opt_concurrency = Some 1, opt_delayMs = None\<rparr>"

section \<open>Properties of the RateLimiter\<close>

subsection \<open>Refill\<close>

lemma refill_lastAcquire: "lastAcquire (refill cfg now s) = lastAcquire s"
  by (simp add: refill_def Let_def)

lemma refill_lastRefill_le: "lastRefill s \<le> now \<Longrightarrow> lastRefill (refill cfg now s) \<le> now"
  by (simp add: refill_def Let_def)

lemma whole_intervals:
  fixes e i :: int
  assumes "0 < i" and "i \<le> e"
  shows "1 \<le> e div i" and "e div i * i \<le> e" and "e < (e div i + 1) * i"
    and "e div i = \<lfloor>real_of_int e / real_of_int i\<rfloor>"
proof -
  from assms pos_imp_zdiv_pos_iff[of i e] show "1 \<le> e div i"
    by simp
  show "e div i = \<lfloor>real_of_int e / real_of_int i\<rfloor>"
    by (simp only: floor_divide_of_int_eq)
  have eq: "e div i * i + e mod i = e" by (rule div_mult_mod_eq)
  have m: "0 \<le> e mod i" "e mod i < i" using assms by simp_all
  from eq m show "e div i * i \<le> e" by linarith
  have "(e div i + 1) * i = e div i * i + i" by (simp add: algebra_simps)
  with eq m show "e < (e div i + 1) * i" by linarith
qed

lemma refill_token_bound:
  assumes "0 \<le> tokensPerInterval cfg" and "0 < intervalMs cfg" and "token_bound cfg s"
  shows "token_bound cfg (refill cfg now s)"
proof (cases "intervalMs cfg \<le> now - lastRefill s")
  case True
  with assms(2) have "0 \<le> (now - lastRefill s) div intervalMs cfg"
    by (simp add: pos_imp_zdiv_nonneg_iff)
  with assms(1) have "0 \<le> (now - lastRefill s) div intervalMs cfg * tokensPerInterval cfg"
    by (simp add: mult_nonneg_nonneg)
  with assms(1,3) True show ?thesis
    by (simp add: token_bound_def refill_def Let_def)
next
  case False
  with assms(3) show ?thesis by (simp add: refill_def Let_def)
qed

lemma refill_fills:
  assumes "0 \<le> tokensPerInterval cfg" and "0 < intervalMs cfg" and "token_bound cfg s"
    and "intervalMs cfg \<le> now - lastRefill s"
  shows "tokens (refill cfg now s) = tokensPerInterval cfg"
proof -
  from whole_intervals(1)[OF assms(2,4)]
  have "1 \<le> (now - lastRefill s) div intervalMs cfg" .
  with assms(1)
  have "1 * tokensPerInterval cfg \<le> (now - lastRefill s) div intervalMs cfg * tokensPerInterval cfg"
    by (intro mult_right_mono) simp_all
  with assms(3,4) show ?thesis
    by (simp add: refill_def Let_def token_bound_def)
qed

lemma refill_mono:
  assumes "0 < intervalMs cfg" and "token_bound cfg s"
  shows "tokens s \<le> tokens (refill cfg now s)"
proof (cases "intervalMs cfg \<le> now - lastRefill s")
  case True
  from assms(2) have c: "0 \<le> tokensPerInterval cfg" by (simp add: token_bound_def)
  from refill_fills[OF c assms True] assms(2) show ?thesis by (simp add: token_bound_def)
next
  case False
  then show ?thesis by (simp add: refill_def Let_def)
qed

text \<open>
  Claim C3. Every admission check (\<^verbatim>\<open>tryAcquire\<close>, an iteration of \<^verbatim>\<open>acquire\<close>,
  \<^verbatim>\<open>getTokens\<close>) starts with the refill step and changes the refill's result only by
  an admission. The refill step: if the time elapsed since \<^verbatim>\<open>lastRefill\<close> is at least
  \<^verbatim>\<open>intervalMs\<close>, then with \<open>k = floor (elapsed / intervalMs)\<close>, the number of whole
  intervals elapsed (\<open>k * intervalMs \<le> elapsed < (k + 1) * intervalMs\<close>), it adds
  \<open>k * capacity\<close> tokens capped at the capacity and sets \<^verbatim>\<open>lastRefill\<close> to the
  current time, not to the interval boundary \<open>lastRefill + k * intervalMs\<close>; if the
  elapsed time is smaller, it changes nothing.
\<close>

theorem refill_behaviour:
  assumes "0 < intervalMs cfg"
  shows "(intervalMs cfg \<le> now - lastRefill s \<longrightarrow>
           (let k = (now - lastRefill s) div intervalMs cfg in
              k = \<lfloor>real_of_int (now - lastRefill s) / real_of_int (intervalMs cfg)\<rfloor>
            \<and> 1 \<le> k \<and> k * intervalMs cfg \<le> now - lastRefill s
            \<and> now - lastRefill s < (k + 1) * intervalMs cfg
            \<and> refill cfg now s =
                s\<lparr>tokens := min (tokensPerInterval cfg) (tokens s + k * tokensPerInterval cfg),
                  lastRefill := now\<rparr>))
       \<and> (now - lastRefill s < intervalMs cfg \<longrightarrow> refill cfg now s = s)
       \<and> snd (getTokens cfg now s) = refill cfg now s
       \<and> snd (tryAcquire cfg now tc ta s) =
           (if fst (tryAcquire cfg now tc ta s)
            then (refill cfg now s)\<lparr>tokens := tokens (refill cfg now s) - 1, lastAcquire := ta\<rparr>
            else refill cfg now s)
       \<and> snd (acquire_iter cfg now tc te s) =
           (if fst (acquire_iter cfg now tc te s) = Admitted
            then (refill cfg now s)\<lparr>tokens := tokens (refill cfg now s) - 1, lastAcquire := te\<rparr>
            else refill cfg now s)"
proof -
  have A: "intervalMs cfg \<le> now - lastRefill s \<longrightarrow>
           (let k = (now - lastRefill s) div intervalMs cfg in
              k = \<lfloor>real_of_int (now - lastRefill s) / real_of_int (intervalMs cfg)\<rfloor>
            \<and> 1 \<le> k \<and> k * intervalMs cfg \<le> now - lastRefill s
            \<and> now - lastRefill s < (k + 1) * intervalMs cfg
            \<and> refill cfg now s =
                s\<lparr>tokens := min (tokensPerInterval cfg) (tokens s + k * tokensPerInterval cfg),
                  lastRefill := now\<rparr>)"
    using whole_intervals[OF assms, of "now - lastRefill s"]
    by (simp add: Let_def refill_def)
  have B: "now - lastRefill s < intervalMs cfg \<longrightarrow> refill cfg now s = s"
    by (simp add: refill_def Let_def)
  have C: "snd (getTokens cfg now s) = refill cfg now s"
    by (simp add: getTokens_def Let_def)
  have D: "snd (tryAcquire cfg now tc ta s) =
           (if fst (tryAcquire cfg now tc ta s)
            then (refill cfg now s)\<lparr>tokens := tokens (refill cfg now s) - 1, lastAcquire := ta\<rparr>
            else refill cfg now s)"
    by (simp add: tryAcquire_def Let_def split: option.split)
  have E: "snd (acquire_iter cfg now tc te s) =
           (if fst (acquire_iter cfg now tc te s) = Admitted
            then (refill cfg now s)\<lparr>tokens := tokens (refill cfg now s) - 1, lastAcquire := te\<rparr>
            else refill cfg now s)"
    by (simp add: acquire_iter_def Let_def split: option.split)
  from A B C D E show ?thesis by blast
qed

text \<open>
  The third test of \<^verbatim>\<open>RateLimiter.test.ts\<close>: an empty bucket of capacity 2 with
  interval 200, last refilled at 0. At 650 three whole intervals have passed: the bucket
  holds 2 tokens, not 6, and \<^verbatim>\<open>lastRefill\<close> is 650, not 600. At 150 nothing changes.
\<close>

theorem refill_behaviour_witness:
  "refill limiter2 650 \<lparr>tokens = 0, lastRefill = 0, lastAcquire = 0\<rparr>
     = \<lparr>tokens = 2, lastRefill = 650, lastAcquire = 0\<rparr>
   \<and> (650 - 0) div intervalMs limiter2 = 3
   \<and> refill limiter2 150 \<lparr>tokens = 0, lastRefill = 0, lastAcquire = 0\<rparr>
     = \<lparr>tokens = 0, lastRefill = 0, lastAcquire = 0\<rparr>"
proof -
  have h: "0 < intervalMs limiter2" by (simp add: limiter2_def)
  from refill_behaviour[OF h, of 650 "\<lparr>tokens = 0, lastRefill = 0, lastAcquire = 0\<rparr>"]
    refill_behaviour[OF h, of 150 "\<lparr>tokens = 0, lastRefill = 0, lastAcquire = 0\<rparr>"]
  show ?thesis by (simp add: limiter2_def Let_def)
qed

subsection \<open>tryAcquire\<close>

text \<open>
  Claim C1. After the refill, \<^verbatim>\<open>tryAcquire\<close> returns true if and only if there is at
  least one token and either no minimum delay is configured or the time elapsed since
  \<^verbatim>\<open>lastAcquire\<close> is at least the minimum delay. When it returns true, it takes
  exactly one token and sets \<^verbatim>\<open>lastAcquire\<close> to the current time; when it returns
  false, the state is the one the refill left.

  "Configured" is the source's own test \<^verbatim>\<open>if (this.config.minDelayMs)\<close>, which an
  absent and a zero delay fail (first conjunct). Read as "a value is present", the
  equivalence holds whenever the clock has not run backwards since the last admission
  (second conjunct).
\<close>

theorem tryAcquire_admits_iff:
  "(fst (tryAcquire cfg tr tc ta s0) \<longleftrightarrow>
      1 \<le> tokens (refill cfg tr s0) \<and>
      (\<forall>d. minDelayMs cfg = Some d \<and> d \<noteq> 0 \<longrightarrow> d \<le> tc - lastAcquire (refill cfg tr s0)))
   \<and> (lastAcquire s0 \<le> tc \<longrightarrow>
       (fst (tryAcquire cfg tr tc ta s0) \<longleftrightarrow>
         1 \<le> tokens (refill cfg tr s0) \<and>
         (\<forall>d. minDelayMs cfg = Some d \<longrightarrow> d \<le> tc - lastAcquire (refill cfg tr s0))))
   \<and> (fst (tryAcquire cfg tr tc ta s0) \<longrightarrow>
        snd (tryAcquire cfg tr tc ta s0) =
          (refill cfg tr s0)\<lparr>tokens := tokens (refill cfg tr s0) - 1, lastAcquire := ta\<rparr>)
   \<and> (\<not> fst (tryAcquire cfg tr tc ta s0) \<longrightarrow>
        snd (tryAcquire cfg tr tc ta s0) = refill cfg tr s0)"
  by (auto simp add: tryAcquire_def Let_def refill_lastAcquire split: option.split)

text \<open>
  The limiter of the second test (capacity 10, minimum delay 100), constructed at 1000:
  a call at 1000 is admitted, a call at 1050 is denied and changes nothing, a call at
  1100 is admitted.
\<close>

theorem tryAcquire_admits_iff_witness:
  "tryAcquire limiter_spaced 1000 1000 1000 (rl_init limiter_spaced 1000)
     = (True, \<lparr>tokens = 9, lastRefill = 1000, lastAcquire = 1000\<rparr>)
   \<and> tryAcquire limiter_spaced 1050 1050 1050 \<lparr>tokens = 9, lastRefill = 1000, lastAcquire = 1000\<rparr>
     = (False, \<lparr>tokens = 9, lastRefill = 1000, lastAcquire = 1000\<rparr>)
   \<and> tryAcquire limiter_spaced 1100 1100 1100 \<lparr>tokens = 9, lastRefill = 1000, lastAcquire = 1000\<rparr>
     = (True, \<lparr>tokens = 8, lastRefill = 1000, lastAcquire = 1100\<rparr>)"
proof -
  let ?s = "\<lparr>tokens = 9, lastRefill = 1000, lastAcquire = 1000\<rparr>"
  have r0: "refill limiter_spaced 1000 (rl_init limiter_spaced 1000)
              = \<lparr>tokens = 10, lastRefill = 1000, lastAcquire = 0\<rparr>"
    by (simp add: refill_def rl_init_def limiter_spaced_def Let_def)
  have r1: "refill limiter_spaced 1050 ?s = ?s" "refill limiter_spaced 1100 ?s = ?s"
    by (simp_all add: refill_def limiter_spaced_def Let_def)
  have d: "minDelayMs limiter_spaced = Some 100" by (simp add: limiter_spaced_def)
  have a: "fst (tryAcquire limiter_spaced 1000 1000 1000 (rl_init limiter_spaced 1000))"
    using tryAcquire_admits_iff[of limiter_spaced 1000 1000 1000 "rl_init limiter_spaced 1000"]
    by (simp add: r0 d)
  have b: "\<not> fst (tryAcquire limiter_spaced 1050 1050 1050 ?s)"
    using tryAcquire_admits_iff[of limiter_spaced 1050 1050 1050 ?s]
    by (simp add: r1 d)
  have c: "fst (tryAcquire limiter_spaced 1100 1100 1100 ?s)"
    using tryAcquire_admits_iff[of limiter_spaced 1100 1100 1100 ?s]
    by (simp add: r1 d)
  from a tryAcquire_admits_iff[of limiter_spaced 1000 1000 1000 "rl_init limiter_spaced 1000"]
  have a': "snd (tryAcquire limiter_spaced 1000 1000 1000 (rl_init limiter_spaced 1000))
              = \<lparr>tokens = 9, lastRefill = 1000, lastAcquire = 1000\<rparr>"
    by (simp add: r0)
  from b tryAcquire_admits_iff[of limiter_spaced 1050 1050 1050 ?s]
  have b': "snd (tryAcquire limiter_spaced 1050 1050 1050 ?s) = ?s"
    by (simp add: r1)
  from c tryAcquire_admits_iff[of limiter_spaced 1100 1100 1100 ?s]
  have c': "snd (tryAcquire limiter_spaced 1100 1100 1100 ?s)
              = \<lparr>tokens = 8, lastRefill = 1000, lastAcquire = 1100\<rparr>"
    by (simp add: r1)
  from a a' b b' c c' show ?thesis
    by (simp add: prod_eq_iff)
qed

subsection \<open>The token bound\<close>

lemma rl_init_token_bound:
  "0 \<le> tokensPerInterval cfg \<Longrightarrow> token_bound cfg (rl_init cfg t0)"
  by (simp add: token_bound_def rl_init_def)

lemma tryAcquire_token_bound:
  assumes "0 \<le> tokensPerInterval cfg" and "0 < intervalMs cfg" and "token_bound cfg s"
  shows "token_bound cfg (snd (tryAcquire cfg tr tc ta s))"
  using refill_token_bound[OF assms, of tr]
  by (simp add: tryAcquire_def Let_def token_bound_def split: option.split)

lemma acquire_iter_token_bound:
  assumes "0 \<le> tokensPerInterval cfg" and "0 < intervalMs cfg" and "token_bound cfg s"
  shows "token_bound cfg (snd (acquire_iter cfg tr tc te s))"
  using refill_token_bound[OF assms, of tr]
  by (simp add: acquire_iter_def Let_def token_bound_def split: option.split)

lemma getTokens_token_bound:
  assumes "0 \<le> tokensPerInterval cfg" and "0 < intervalMs cfg" and "token_bound cfg s"
  shows "token_bound cfg (snd (getTokens cfg tr s))"
  using refill_token_bound[OF assms, of tr]
  by (simp add: getTokens_def Let_def)

lemma rl_step_token_bound:
  assumes "0 \<le> tokensPerInterval cfg" and "0 < intervalMs cfg" and "token_bound cfg s"
  shows "token_bound cfg (rl_step cfg c s)"
  using assms
  by (cases c)
    (simp_all add: tryAcquire_token_bound acquire_iter_token_bound getTokens_token_bound)

lemma rl_run_token_bound:
  assumes "0 \<le> tokensPerInterval cfg" and "0 < intervalMs cfg"
  shows "token_bound cfg s \<Longrightarrow> token_bound cfg (rl_run cfg calls s)"
  unfolding rl_run_def
proof (induction calls arbitrary: s)
  case Nil
  then show ?case by simp
next
  case (Cons c calls)
  from Cons.prems have "token_bound cfg (rl_step cfg c s)"
    by (rule rl_step_token_bound[OF assms])
  then show ?case using Cons.IH by simp
qed

text \<open>
  A call of \<^verbatim>\<open>acquire()\<close> that returns is a sequence of iterations, so the histories
  of \<open>rl_run\<close> cover it.
\<close>

lemma acquire_is_iterations:
  "acquire cfg late now s = Some (t, s') \<Longrightarrow>
   \<exists>calls. s' = rl_run cfg calls s \<and> (\<forall>c \<in> set calls. \<exists>u. c = AcquireIter u u u)"
proof (induction late arbitrary: now s)
  case Nil
  then have "s' = rl_run cfg [AcquireIter now now now] s"
    by (auto simp: rl_run_def split: prod.splits acquire_outcome.splits)
  moreover have "\<forall>c \<in> set [AcquireIter now now now]. \<exists>u. c = AcquireIter u u u" by simp
  ultimately show ?case by blast
next
  case (Cons l late)
  obtain out s1 where it: "acquire_iter cfg now now now s = (out, s1)"
    by (cases "acquire_iter cfg now now now s")
  have step: "\<exists>calls. s' = rl_run cfg calls s \<and> (\<forall>c \<in> set calls. \<exists>u. c = AcquireIter u u u)"
    if "acquire cfg late now' s1 = Some (t, s')" for now'
  proof -
    from Cons.IH[OF that] obtain calls where
      c: "s' = rl_run cfg calls s1" "\<forall>c \<in> set calls. \<exists>u. c = AcquireIter u u u" by blast
    from c(1) it have "s' = rl_run cfg (AcquireIter now now now # calls) s"
      by (simp add: rl_run_def)
    moreover from c(2)
    have "\<forall>c \<in> set (AcquireIter now now now # calls). \<exists>u. c = AcquireIter u u u"
      by simp
    ultimately show ?thesis by blast
  qed
  show ?case
  proof (cases out)
    case Admitted
    with it Cons.prems have "s' = rl_run cfg [AcquireIter now now now] s"
      by (simp add: rl_run_def)
    moreover have "\<forall>c \<in> set [AcquireIter now now now]. \<exists>u. c = AcquireIter u u u" by simp
    ultimately show ?thesis by blast
  next
    case (SleepSpacing ms)
    with it Cons.prems have "acquire cfg late (now + ms + int l) s1 = Some (t, s')" by simp
    then show ?thesis by (rule step)
  next
    case (SleepRefill ms)
    with it Cons.prems have "acquire cfg late (now + ms + int l) s1 = Some (t, s')" by simp
    then show ?thesis by (rule step)
  qed
qed

text \<open>
  Claim C2. For a limiter constructed with a capacity that is not negative and a positive
  interval, after every history of calls of \<^verbatim>\<open>tryAcquire\<close> and \<^verbatim>\<open>getTokens\<close> and
  iterations of \<^verbatim>\<open>acquire\<close>, at arbitrary clock readings, and after every prefix of it,
  \<open>0 \<le> tokens \<le> capacity\<close>; the number that \<^verbatim>\<open>getTokens\<close> returns there is within
  the same bounds, and so is the state in which a call of \<^verbatim>\<open>acquire\<close> made there
  returns.
\<close>

theorem token_bound_invariant:
  assumes "0 \<le> tokensPerInterval cfg" and "0 < intervalMs cfg"
  shows "token_bound cfg (rl_run cfg (take n calls) (rl_init cfg t0))
       \<and> 0 \<le> fst (getTokens cfg t (rl_run cfg (take n calls) (rl_init cfg t0)))
       \<and> fst (getTokens cfg t (rl_run cfg (take n calls) (rl_init cfg t0)))
           \<le> tokensPerInterval cfg
       \<and> (acquire cfg late now (rl_run cfg (take n calls) (rl_init cfg t0)) = Some (u, s')
            \<longrightarrow> token_bound cfg s')"
proof -
  let ?s = "rl_run cfg (take n calls) (rl_init cfg t0)"
  have b: "token_bound cfg ?s"
    by (rule rl_run_token_bound[OF assms rl_init_token_bound[OF assms(1)]])
  have c: "token_bound cfg s'" if "acquire cfg late now ?s = Some (u, s')"
  proof -
    from acquire_is_iterations[OF that] obtain iters where "s' = rl_run cfg iters ?s"
      by blast
    with rl_run_token_bound[OF assms b, of iters] show ?thesis by simp
  qed
  from refill_token_bound[OF assms b, of t] b c show ?thesis
    by (simp add: getTokens_def Let_def token_bound_def)
qed

text \<open>
  The third test of \<^verbatim>\<open>RateLimiter.test.ts\<close>: three calls at 0, one at 250, then
  \<^verbatim>\<open>getTokens\<close>. A call of \<^verbatim>\<open>acquire\<close> at 0 after the first three calls sleeps
  until 200 and returns with one of the two refilled tokens taken.
\<close>

theorem token_bound_invariant_witness:
  "token_bound limiter2
     (rl_run limiter2
        (take 4 [TryAcquire 0 0 0, TryAcquire 0 0 0, TryAcquire 0 0 0, TryAcquire 250 250 250])
        (rl_init limiter2 0))
   \<and> rl_run limiter2
        (take 4 [TryAcquire 0 0 0, TryAcquire 0 0 0, TryAcquire 0 0 0, TryAcquire 250 250 250])
        (rl_init limiter2 0) = \<lparr>tokens = 1, lastRefill = 250, lastAcquire = 250\<rparr>
   \<and> fst (getTokens limiter2 250 \<lparr>tokens = 1, lastRefill = 250, lastAcquire = 250\<rparr>) = 1
   \<and> acquire limiter2 [0, 0] 0
        (rl_run limiter2
          (take 3 [TryAcquire 0 0 0, TryAcquire 0 0 0, TryAcquire 0 0 0, TryAcquire 250 250 250])
          (rl_init limiter2 0))
       = Some (200, \<lparr>tokens = 1, lastRefill = 200, lastAcquire = 200\<rparr>)
   \<and> token_bound limiter2 \<lparr>tokens = 1, lastRefill = 200, lastAcquire = 200\<rparr>"
proof -
  let ?calls = "[TryAcquire 0 0 0, TryAcquire 0 0 0, TryAcquire 0 0 0, TryAcquire 250 250 250]"
  let ?s0 = "\<lparr>tokens = 0, lastRefill = 0, lastAcquire = 0\<rparr>"
  have h1: "0 \<le> tokensPerInterval limiter2" and h2: "0 < intervalMs limiter2"
    by (simp_all add: limiter2_def)
  have s1: "tryAcquire limiter2 0 0 0 (rl_init limiter2 0)
              = (True, \<lparr>tokens = 1, lastRefill = 0, lastAcquire = 0\<rparr>)"
    by (simp add: tryAcquire_def refill_def rl_init_def limiter2_def Let_def)
  have s2: "tryAcquire limiter2 0 0 0 \<lparr>tokens = 1, lastRefill = 0, lastAcquire = 0\<rparr>
              = (True, ?s0)"
    by (simp add: tryAcquire_def refill_def limiter2_def Let_def)
  have s3: "tryAcquire limiter2 0 0 0 ?s0 = (False, ?s0)"
    by (simp add: tryAcquire_def refill_def limiter2_def Let_def)
  have s4: "tryAcquire limiter2 250 250 250 ?s0
              = (True, \<lparr>tokens = 1, lastRefill = 250, lastAcquire = 250\<rparr>)"
    by (simp add: tryAcquire_def refill_def limiter2_def Let_def)
  have r: "rl_run limiter2 (take 4 ?calls) (rl_init limiter2 0)
             = \<lparr>tokens = 1, lastRefill = 250, lastAcquire = 250\<rparr>"
    by (simp add: rl_run_def s1 s2 s3 s4)
  have r3: "rl_run limiter2 (take 3 ?calls) (rl_init limiter2 0) = ?s0"
    by (simp add: rl_run_def s1 s2 s3 numeral_3_eq_3)
  have g: "fst (getTokens limiter2 250 \<lparr>tokens = 1, lastRefill = 250, lastAcquire = 250\<rparr>) = 1"
    by (simp add: getTokens_def refill_def limiter2_def Let_def)
  have i1: "acquire_iter limiter2 0 0 0 ?s0 = (SleepRefill 200, ?s0)"
    by (simp add: acquire_iter_def refill_def limiter2_def Let_def)
  have i2: "acquire_iter limiter2 200 200 200 ?s0
              = (Admitted, \<lparr>tokens = 1, lastRefill = 200, lastAcquire = 200\<rparr>)"
    by (simp add: acquire_iter_def refill_def limiter2_def Let_def)
  have "acquire limiter2 [0, 0] 0 ?s0
          = Some (200, \<lparr>tokens = 1, lastRefill = 200, lastAcquire = 200\<rparr>)"
    by (simp add: i1 i2)
  then have a: "acquire limiter2 [0, 0] 0 (rl_run limiter2 (take 3 ?calls) (rl_init limiter2 0))
             = Some (200, \<lparr>tokens = 1, lastRefill = 200, lastAcquire = 200\<rparr>)"
    by (simp only: r3)
  from a token_bound_invariant[OF h1 h2, where n = 3 and calls = ?calls and ?t0.0 = 0
      and t = 0 and late = "[0, 0]" and now = 0 and u = 200
      and s' = "\<lparr>tokens = 1, lastRefill = 200, lastAcquire = 200\<rparr>"]
  have b: "token_bound limiter2 \<lparr>tokens = 1, lastRefill = 200, lastAcquire = 200\<rparr>"
    by blast
  from token_bound_invariant[OF h1 h2, where n = 4 and calls = ?calls and ?t0.0 = 0
      and t = 250 and late = "[0, 0]" and now = 0 and u = 200
      and s' = "\<lparr>tokens = 1, lastRefill = 200, lastAcquire = 200\<rparr>"] r g a b
  show ?thesis by simp
qed

subsection \<open>The iterations of acquire\<close>

lemma acquire_iter_SleepRefill:
  "acquire_iter cfg tr tc te s = (SleepRefill ms, s') \<Longrightarrow>
     tokens (refill cfg tr s) < 1 \<and> spacing_ok cfg tc s \<and> s' = refill cfg tr s
     \<and> ms = max (intervalMs cfg - (te - lastRefill s')) 100"
  by (auto simp add: acquire_iter_def Let_def spacing_ok_def refill_lastAcquire
      split: option.splits if_splits)

lemma acquire_iter_SleepSpacing:
  "acquire_iter cfg tr tc te s = (SleepSpacing ms, s') \<Longrightarrow>
     \<not> spacing_ok cfg tc s \<and> s' = refill cfg tr s
     \<and> (\<exists>d. minDelayMs cfg = Some d \<and> ms = d - (tc - lastAcquire s))"
  by (auto simp add: acquire_iter_def Let_def spacing_ok_def refill_lastAcquire
      split: option.splits if_splits)

lemma acquire_iter_Admitted:
  "acquire_iter cfg tr tc te s = (Admitted, s') \<Longrightarrow>
     1 \<le> tokens (refill cfg tr s) \<and> spacing_ok cfg tc s
     \<and> s' = (refill cfg tr s)\<lparr>tokens := tokens (refill cfg tr s) - 1, lastAcquire := te\<rparr>"
  by (auto simp add: acquire_iter_def Let_def spacing_ok_def refill_lastAcquire
      split: option.splits if_splits)

lemma acquire_iter_admits:
  "1 \<le> tokens (refill cfg tr s) \<Longrightarrow> spacing_ok cfg tc s \<Longrightarrow>
   acquire_iter cfg tr tc te s =
     (Admitted, (refill cfg tr s)\<lparr>tokens := tokens (refill cfg tr s) - 1, lastAcquire := te\<rparr>)"
  by (auto simp add: acquire_iter_def Let_def spacing_ok_def refill_lastAcquire
      split: option.splits if_splits)

lemma acquire_iter_empty:
  "tokens (refill cfg tr s) < 1 \<Longrightarrow> spacing_ok cfg tc s \<Longrightarrow>
   acquire_iter cfg tr tc te s =
     (SleepRefill (max (intervalMs cfg - (te - lastRefill (refill cfg tr s))) 100),
      refill cfg tr s)"
  by (auto simp add: acquire_iter_def Let_def spacing_ok_def refill_lastAcquire
      split: option.splits)

text \<open>
  Claim C4, as the specification states it: the wait of an iteration denied for an empty
  bucket is the lesser of the time until the next refill and the floor wait. The limiter
  of the fourth test (capacity 1, interval 200) is constructed at 0 and emptied at 0; an
  iteration of \<^verbatim>\<open>acquire\<close> at 50 finds the bucket empty, 150 ms before the next
  refill. It sleeps 150 ms, and the lesser of 150 and the floor of 100 is 100.
\<close>

theorem empty_bucket_wait_lesser_counterexample:
  "tryAcquire limiter1 0 0 0 (rl_init limiter1 0)
     = (True, \<lparr>tokens = 0, lastRefill = 0, lastAcquire = 0\<rparr>)
   \<and> acquire_iter limiter1 50 50 50 \<lparr>tokens = 0, lastRefill = 0, lastAcquire = 0\<rparr>
     = (SleepRefill 150, \<lparr>tokens = 0, lastRefill = 0, lastAcquire = 0\<rparr>)
   \<and> intervalMs limiter1 - (50 - lastRefill \<lparr>tokens = 0, lastRefill = 0, lastAcquire = 0\<rparr>) = 150
   \<and> min (150::int) 100 \<noteq> 150"
  by (simp add: acquire_iter_def tryAcquire_def rl_init_def refill_def limiter1_def Let_def)

text \<open>
  Claim C4, amended. In every iteration of \<^verbatim>\<open>acquire\<close> that is denied because the
  bucket is empty (no token after the refill, no violation of the minimum delay), the
  wait is the greater of the time remaining until the next refill and the floor wait of
  100 ms; and an iteration sleeps in that branch only when it is denied so.
\<close>

theorem empty_bucket_wait:
  "(tokens (refill cfg tr s) < 1 \<and> spacing_ok cfg tc s \<longrightarrow>
      acquire_iter cfg tr tc te s =
        (SleepRefill (max (intervalMs cfg - (te - lastRefill (refill cfg tr s))) 100),
         refill cfg tr s))
   \<and> (acquire_iter cfg tr tc te s = (SleepRefill ms, s') \<longrightarrow>
        tokens (refill cfg tr s) < 1 \<and> spacing_ok cfg tc s \<and> s' = refill cfg tr s
        \<and> ms = max (intervalMs cfg - (te - lastRefill s')) 100)"
  using acquire_iter_empty[of cfg tr s tc te] acquire_iter_SleepRefill[of cfg tr tc te s ms s']
  by blast

text \<open>
  The same limiter: at 50 the wait is the 150 ms until the refill, at 150 it is the floor
  of 100 ms (the refill is 50 ms away).
\<close>

theorem empty_bucket_wait_witness:
  "acquire_iter limiter1 50 50 50 \<lparr>tokens = 0, lastRefill = 0, lastAcquire = 0\<rparr>
     = (SleepRefill 150, \<lparr>tokens = 0, lastRefill = 0, lastAcquire = 0\<rparr>)
   \<and> acquire_iter limiter1 150 150 150 \<lparr>tokens = 0, lastRefill = 0, lastAcquire = 0\<rparr>
     = (SleepRefill 100, \<lparr>tokens = 0, lastRefill = 0, lastAcquire = 0\<rparr>)
   \<and> spacing_ok limiter1 50 \<lparr>tokens = 0, lastRefill = 0, lastAcquire = 0\<rparr>"
proof -
  let ?s = "\<lparr>tokens = 0, lastRefill = 0, lastAcquire = 0\<rparr>"
  have r: "refill limiter1 50 ?s = ?s" "refill limiter1 150 ?s = ?s"
    by (simp_all add: refill_def limiter1_def Let_def)
  have i: "intervalMs limiter1 = 200" by (simp add: limiter1_def)
  have ok: "spacing_ok limiter1 50 ?s" "spacing_ok limiter1 150 ?s"
    by (simp_all add: spacing_ok_def limiter1_def)
  have e: "tokens (refill limiter1 50 ?s) < 1" "tokens (refill limiter1 150 ?s) < 1"
    by (simp_all add: r)
  from empty_bucket_wait[of limiter1 50 ?s 50 50 150 ?s] e(1) ok(1)
  have "acquire_iter limiter1 50 50 50 ?s =
          (SleepRefill (max (intervalMs limiter1 - (50 - lastRefill (refill limiter1 50 ?s))) 100),
           refill limiter1 50 ?s)"
    by blast
  then have a: "acquire_iter limiter1 50 50 50 ?s = (SleepRefill 150, ?s)"
    by (simp add: r i)
  from empty_bucket_wait[of limiter1 150 ?s 150 150 100 ?s] e(2) ok(2)
  have "acquire_iter limiter1 150 150 150 ?s =
          (SleepRefill (max (intervalMs limiter1 - (150 - lastRefill (refill limiter1 150 ?s))) 100),
           refill limiter1 150 ?s)"
    by blast
  then have b: "acquire_iter limiter1 150 150 150 ?s = (SleepRefill 100, ?s)"
    by (simp add: r i)
  from a empty_bucket_wait[of limiter1 50 ?s 50 50 150 ?s]
  have "spacing_ok limiter1 50 ?s" by blast
  with a b show ?thesis by simp
qed

subsection \<open>acquire as a whole\<close>

lemma spacing_ok_later:
  "spacing_ok cfg t s \<Longrightarrow> t \<le> t' \<Longrightarrow> lastAcquire s' = lastAcquire s \<Longrightarrow> spacing_ok cfg t' s'"
  by (auto simp: spacing_ok_def split: option.splits)

lemma acquire_Admitted:
  "acquire_iter cfg now now now s = (Admitted, s') \<Longrightarrow> acquire cfg late now s = Some (now, s')"
  by (cases late) simp_all

text \<open>An iteration that follows a sleep for the refill is admitted.\<close>

lemma acquire_after_refill_sleep:
  assumes "1 \<le> tokensPerInterval cfg" and "0 < intervalMs cfg" and "token_bound cfg s"
    and "intervalMs cfg \<le> now - lastRefill s" and "spacing_ok cfg now s"
  shows "\<exists>s'. acquire cfg late now s = Some (now, s')"
proof -
  from assms(1) have "0 \<le> tokensPerInterval cfg" by simp
  from refill_fills[OF this assms(2-4)] assms(1) have "1 \<le> tokens (refill cfg now s)" by simp
  from acquire_iter_admits[OF this assms(5)] acquire_Admitted show ?thesis by blast
qed

text \<open>Once the minimum delay has passed, one sleep is enough.\<close>

lemma acquire_spacing_ok:
  assumes "1 \<le> tokensPerInterval cfg" and "0 < intervalMs cfg" and "token_bound cfg s"
    and "spacing_ok cfg now s" and "late \<noteq> []"
  shows "\<exists>t s'. acquire cfg late now s = Some (t, s')"
proof (cases "1 \<le> tokens (refill cfg now s)")
  case True
  from acquire_iter_admits[OF this assms(4)] acquire_Admitted show ?thesis by blast
next
  case False
  then have lt: "tokens (refill cfg now s) < 1" by simp
  let ?s1 = "refill cfg now s"
  let ?ms = "max (intervalMs cfg - (now - lastRefill ?s1)) 100"
  from assms(5) obtain l late' where late: "late = l # late'" by (cases late) auto
  have it: "acquire_iter cfg now now now s = (SleepRefill ?ms, ?s1)"
    by (rule acquire_iter_empty[OF lt assms(4)])
  let ?now' = "now + ?ms + int l"
  have b1: "token_bound cfg ?s1"
    using assms(1-3) by (intro refill_token_bound) simp_all
  have e: "intervalMs cfg \<le> ?now' - lastRefill ?s1" by simp
  have "now \<le> ?now'" by simp
  with assms(4) have ok: "spacing_ok cfg ?now' ?s1"
    by (rule spacing_ok_later) (simp add: refill_lastAcquire)
  from acquire_after_refill_sleep[OF assms(1,2) b1 e ok, of late'] it late
  show ?thesis by auto
qed

lemma acquire_returns:
  assumes "1 \<le> tokensPerInterval cfg" and "0 < intervalMs cfg" and "token_bound cfg s"
    and "2 \<le> length late"
  shows "\<exists>t s'. acquire cfg late now s = Some (t, s')"
proof (cases "spacing_ok cfg now s")
  case True
  from assms(4) have "late \<noteq> []" by auto
  from acquire_spacing_ok[OF assms(1-3) True this] show ?thesis .
next
  case False
  then obtain d where d: "minDelayMs cfg = Some d" "d \<noteq> 0" "now - lastAcquire s < d"
    by (auto simp: spacing_ok_def split: option.splits)
  let ?s1 = "refill cfg now s"
  let ?ms = "d - (now - lastAcquire s)"
  from assms(4) obtain l late' where late1: "late = l # late'"
    by (cases late) auto
  with assms(4) have late2: "late' \<noteq> []" by auto
  from d have it: "acquire_iter cfg now now now s = (SleepSpacing ?ms, ?s1)"
    by (simp add: acquire_iter_def Let_def refill_lastAcquire)
  let ?now' = "now + ?ms + int l"
  have b1: "token_bound cfg ?s1"
    using assms(1-3) by (intro refill_token_bound) simp_all
  from d have ok: "spacing_ok cfg ?now' ?s1"
    by (simp add: spacing_ok_def refill_lastAcquire)
  from acquire_spacing_ok[OF assms(1,2) b1 ok late2] it late1
  show ?thesis by auto
qed

text \<open>
  The state in which \<^verbatim>\<open>acquire\<close> returns: the refills of its iterations (at the times
  \<open>ts\<close> and at the time of return), and one token taken.
\<close>

lemma acquire_result:
  "acquire cfg late now s = Some (t, s') \<Longrightarrow>
   \<exists>ts. hd (ts @ [t]) = now \<and>
        (let sr = refill cfg t (foldl (\<lambda>s u. refill cfg u s) s ts) in
         1 \<le> tokens sr \<and> s' = sr\<lparr>tokens := tokens sr - 1, lastAcquire := t\<rparr>)"
proof (induction late arbitrary: now s)
  case Nil
  obtain out s1 where it: "acquire_iter cfg now now now s = (out, s1)"
    by (cases "acquire_iter cfg now now now s")
  with Nil have "out = Admitted" "t = now" "s1 = s'"
    by (auto split: acquire_outcome.splits)
  with it acquire_iter_Admitted[of cfg now now now s s']
  have "hd ([] @ [t]) = now \<and>
        (let sr = refill cfg t (foldl (\<lambda>s u. refill cfg u s) s []) in
         1 \<le> tokens sr \<and> s' = sr\<lparr>tokens := tokens sr - 1, lastAcquire := t\<rparr>)"
    by (simp add: Let_def)
  then show ?case by blast
next
  case (Cons l late)
  obtain out s1 where it: "acquire_iter cfg now now now s = (out, s1)"
    by (cases "acquire_iter cfg now now now s")
  have step: ?case
    if rec: "acquire cfg late now' s1 = Some (t, s')" and s1: "s1 = refill cfg now s" for now'
  proof -
    from Cons.IH[OF rec] obtain ts where
      ts: "let sr = refill cfg t (foldl (\<lambda>s u. refill cfg u s) s1 ts) in
         1 \<le> tokens sr \<and> s' = sr\<lparr>tokens := tokens sr - 1, lastAcquire := t\<rparr>" by blast
    with s1 have "hd ((now # ts) @ [t]) = now \<and>
        (let sr = refill cfg t (foldl (\<lambda>s u. refill cfg u s) s (now # ts)) in
         1 \<le> tokens sr \<and> s' = sr\<lparr>tokens := tokens sr - 1, lastAcquire := t\<rparr>)"
      by simp
    then show ?thesis by blast
  qed
  show ?case
  proof (cases out)
    case Admitted
    with it Cons.prems have "t = now" "s1 = s'" by simp_all
    with it Admitted acquire_iter_Admitted[of cfg now now now s s']
    have "hd ([] @ [t]) = now \<and>
        (let sr = refill cfg t (foldl (\<lambda>s u. refill cfg u s) s []) in
         1 \<le> tokens sr \<and> s' = sr\<lparr>tokens := tokens sr - 1, lastAcquire := t\<rparr>)"
      by (simp add: Let_def)
    then show ?thesis by blast
  next
    case (SleepSpacing ms)
    with it Cons.prems have "acquire cfg late (now + ms + int l) s1 = Some (t, s')" by simp
    moreover from it SleepSpacing acquire_iter_SleepSpacing[of cfg now now now s ms s1]
    have "s1 = refill cfg now s" by simp
    ultimately show ?thesis by (rule step)
  next
    case (SleepRefill ms)
    with it Cons.prems have "acquire cfg late (now + ms + int l) s1 = Some (t, s')" by simp
    moreover from it SleepRefill acquire_iter_SleepRefill[of cfg now now now s ms s1]
    have "s1 = refill cfg now s" by simp
    ultimately show ?thesis by (rule step)
  qed
qed

text \<open>
  Claim C5. \<^verbatim>\<open>acquire\<close> returns only from the branch that takes exactly one token:
  an iteration that returns found at least one token after its refill, took one and set
  \<^verbatim>\<open>lastAcquire\<close>; and the state in which the whole call returns is the state its
  refills produce with one token taken. Every sleep it computes is strictly positive and
  bounded: the wait for the minimum delay is positive and, when the clock has not run
  backwards since the last admission, at most the minimum delay; the wait for the refill
  is at least 100 ms and, when the clock has not run backwards since the last refill, at
  most the greater of the interval and 100 ms. With a capacity of at least one and a
  positive interval, a single caller whose timers fire no earlier than requested returns
  after at most two sleeps.
\<close>

theorem acquire_waits:
  "(acquire_iter cfg tr tc te s = (Admitted, s') \<longrightarrow>
       1 \<le> tokens (refill cfg tr s) \<and>
       s' = (refill cfg tr s)\<lparr>tokens := tokens (refill cfg tr s) - 1, lastAcquire := te\<rparr>)
   \<and> (acquire_iter cfg tr tc te s = (SleepSpacing ms, s') \<longrightarrow>
       0 < ms \<and> s' = refill cfg tr s \<and>
       (lastAcquire s \<le> tc \<longrightarrow> (\<exists>d. minDelayMs cfg = Some d \<and> ms \<le> d)))
   \<and> (acquire_iter cfg tr tc te s = (SleepRefill ms, s') \<longrightarrow>
       100 \<le> ms \<and> s' = refill cfg tr s \<and>
       (lastRefill s \<le> tr \<and> tr \<le> te \<longrightarrow> ms \<le> max (intervalMs cfg) 100))
   \<and> (acquire cfg late now s = Some (t, s') \<longrightarrow>
       (\<exists>ts. hd (ts @ [t]) = now \<and>
        (let sr = refill cfg t (foldl (\<lambda>s u. refill cfg u s) s ts) in
         1 \<le> tokens sr \<and> s' = sr\<lparr>tokens := tokens sr - 1, lastAcquire := t\<rparr>)))
   \<and> (1 \<le> tokensPerInterval cfg \<and> 0 < intervalMs cfg \<and> token_bound cfg s \<and> 2 \<le> length late
        \<longrightarrow> acquire cfg late now s \<noteq> None)"
proof -
  have A: "acquire_iter cfg tr tc te s = (Admitted, s') \<longrightarrow>
       1 \<le> tokens (refill cfg tr s) \<and>
       s' = (refill cfg tr s)\<lparr>tokens := tokens (refill cfg tr s) - 1, lastAcquire := te\<rparr>"
    using acquire_iter_Admitted[of cfg tr tc te s s'] by blast
  have B: "acquire_iter cfg tr tc te s = (SleepSpacing ms, s') \<longrightarrow>
       0 < ms \<and> s' = refill cfg tr s \<and>
       (lastAcquire s \<le> tc \<longrightarrow> (\<exists>d. minDelayMs cfg = Some d \<and> ms \<le> d))"
    by (auto simp add: acquire_iter_def Let_def refill_lastAcquire split: option.splits if_splits)
  have C: "acquire_iter cfg tr tc te s = (SleepRefill ms, s') \<longrightarrow>
       100 \<le> ms \<and> s' = refill cfg tr s \<and>
       (lastRefill s \<le> tr \<and> tr \<le> te \<longrightarrow> ms \<le> max (intervalMs cfg) 100)"
  proof (intro impI)
    assume a: "acquire_iter cfg tr tc te s = (SleepRefill ms, s')"
    from acquire_iter_SleepRefill[OF a]
    have ms: "ms = max (intervalMs cfg - (te - lastRefill s')) 100" "s' = refill cfg tr s"
      by simp_all
    have "lastRefill s \<le> tr \<and> tr \<le> te \<longrightarrow> lastRefill s' \<le> te"
      using refill_lastRefill_le[of s tr cfg] ms(2) by auto
    with ms show "100 \<le> ms \<and> s' = refill cfg tr s \<and>
        (lastRefill s \<le> tr \<and> tr \<le> te \<longrightarrow> ms \<le> max (intervalMs cfg) 100)"
      by auto
  qed
  have D: "acquire cfg late now s = Some (t, s') \<longrightarrow>
       (\<exists>ts. hd (ts @ [t]) = now \<and>
        (let sr = refill cfg t (foldl (\<lambda>s u. refill cfg u s) s ts) in
         1 \<le> tokens sr \<and> s' = sr\<lparr>tokens := tokens sr - 1, lastAcquire := t\<rparr>))"
    using acquire_result[of cfg late now s t s'] by blast
  have E: "1 \<le> tokensPerInterval cfg \<and> 0 < intervalMs cfg \<and> token_bound cfg s \<and> 2 \<le> length late
        \<longrightarrow> acquire cfg late now s \<noteq> None"
    using acquire_returns[of cfg s late now] by auto
  from A B C D E show ?thesis by blast
qed

text \<open>
  The limiter of the second test, constructed at 1000: an iteration at 1000 is admitted,
  an iteration at 1050 sleeps the 50 ms that remain of the minimum delay. The limiter of
  the fourth test, emptied at 0: an iteration at 50 sleeps 150 ms, and a call of
  \<^verbatim>\<open>acquire\<close> at 0 sleeps 200 ms once and returns at 200 with the refilled token
  taken.
\<close>

theorem acquire_waits_witness:
  "acquire_iter limiter_spaced 1000 1000 1000 (rl_init limiter_spaced 1000)
     = (Admitted, \<lparr>tokens = 9, lastRefill = 1000, lastAcquire = 1000\<rparr>)
   \<and> 1 \<le> tokens (refill limiter_spaced 1000 (rl_init limiter_spaced 1000))
   \<and> acquire_iter limiter_spaced 1050 1050 1050 \<lparr>tokens = 9, lastRefill = 1000, lastAcquire = 1000\<rparr>
     = (SleepSpacing 50, \<lparr>tokens = 9, lastRefill = 1000, lastAcquire = 1000\<rparr>)
   \<and> minDelayMs limiter_spaced = Some 100
   \<and> acquire_iter limiter1 50 50 50 \<lparr>tokens = 0, lastRefill = 0, lastAcquire = 0\<rparr>
     = (SleepRefill 150, \<lparr>tokens = 0, lastRefill = 0, lastAcquire = 0\<rparr>)
   \<and> max (intervalMs limiter1) 100 = 200
   \<and> acquire limiter1 [0, 0] 0 \<lparr>tokens = 0, lastRefill = 0, lastAcquire = 0\<rparr>
     = Some (200, \<lparr>tokens = 0, lastRefill = 200, lastAcquire = 200\<rparr>)
   \<and> acquire limiter1 [0, 0] 0 \<lparr>tokens = 0, lastRefill = 0, lastAcquire = 0\<rparr> \<noteq> None"
proof -
  let ?s9 = "\<lparr>tokens = 9, lastRefill = 1000, lastAcquire = 1000\<rparr>"
  let ?s0 = "\<lparr>tokens = 0, lastRefill = 0, lastAcquire = 0\<rparr>"
  let ?s2 = "\<lparr>tokens = 0, lastRefill = 200, lastAcquire = 200\<rparr>"
  have a: "acquire_iter limiter_spaced 1000 1000 1000 (rl_init limiter_spaced 1000)
             = (Admitted, ?s9)"
    by (simp add: acquire_iter_def refill_def rl_init_def limiter_spaced_def Let_def)
  have b: "acquire_iter limiter_spaced 1050 1050 1050 ?s9 = (SleepSpacing 50, ?s9)"
    by (simp add: acquire_iter_def refill_def limiter_spaced_def Let_def)
  have c: "acquire_iter limiter1 50 50 50 ?s0 = (SleepRefill 150, ?s0)"
    by (simp add: acquire_iter_def refill_def limiter1_def Let_def)
  have i1: "acquire_iter limiter1 0 0 0 ?s0 = (SleepRefill 200, ?s0)"
    by (simp add: acquire_iter_def refill_def limiter1_def Let_def)
  have i2: "acquire_iter limiter1 200 200 200 ?s0 = (Admitted, ?s2)"
    by (simp add: acquire_iter_def refill_def limiter1_def Let_def)
  have d: "acquire limiter1 [0, 0] 0 ?s0 = Some (200, ?s2)"
    by (simp add: i1 i2)
  have h: "1 \<le> tokensPerInterval limiter1 \<and> 0 < intervalMs limiter1
           \<and> token_bound limiter1 ?s0 \<and> 2 \<le> length [0::nat, 0]"
    by (simp add: limiter1_def token_bound_def)
  have m: "lastAcquire ?s9 \<le> 1050" "lastRefill ?s0 \<le> 50 \<and> (50::int) \<le> 50" by simp_all
  from a acquire_waits[where cfg = limiter_spaced and tr = 1000 and tc = 1000 and te = 1000
      and s = "rl_init limiter_spaced 1000" and s' = ?s9]
  have a': "1 \<le> tokens (refill limiter_spaced 1000 (rl_init limiter_spaced 1000))" by blast
  from b m(1) acquire_waits[where cfg = limiter_spaced and tr = 1050 and tc = 1050
      and te = 1050 and s = ?s9 and s' = ?s9 and ms = 50]
  have b': "\<exists>d. minDelayMs limiter_spaced = Some d \<and> 50 \<le> d" by blast
  from c m(2) acquire_waits[where cfg = limiter1 and tr = 50 and tc = 50
      and te = 50 and s = ?s0 and s' = ?s0 and ms = 150]
  have c': "150 \<le> max (intervalMs limiter1) 100" by blast
  from d acquire_waits[where cfg = limiter1 and late = "[0, 0]" and now = 0 and s = ?s0
      and t = 200 and s' = ?s2]
  have d': "\<exists>ts. hd (ts @ [200]) = 0 \<and>
        (let sr = refill limiter1 200 (foldl (\<lambda>s u. refill limiter1 u s) ?s0 ts) in
         1 \<le> tokens sr \<and> ?s2 = sr\<lparr>tokens := tokens sr - 1, lastAcquire := 200\<rparr>)"
    by blast
  from h acquire_waits[where cfg = limiter1 and late = "[0, 0]" and now = 0 and s = ?s0]
  have e': "acquire limiter1 [0, 0] 0 ?s0 \<noteq> None" by blast
  have f: "minDelayMs limiter_spaced = Some 100" "max (intervalMs limiter1) 100 = 200"
    by (simp_all add: limiter_spaced_def limiter1_def)
  from a a' b b' c c' d d' e' f show ?thesis by simp
qed

subsection \<open>A fresh limiter\<close>

lemma refill_rl_init:
  assumes "0 < intervalMs cfg"
  shows "(1 \<le> tokens (refill cfg tr (rl_init cfg t0))) = (1 \<le> tokensPerInterval cfg)"
proof (cases "intervalMs cfg \<le> tr - t0")
  case True
  from whole_intervals(1)[OF assms True] have k: "1 \<le> (tr - t0) div intervalMs cfg" .
  show ?thesis
  proof (cases "1 \<le> tokensPerInterval cfg")
    case c: True
    with k have "1 * tokensPerInterval cfg \<le> (tr - t0) div intervalMs cfg * tokensPerInterval cfg"
      by (intro mult_right_mono) simp_all
    with True c show ?thesis by (simp add: refill_def rl_init_def Let_def)
  next
    case False
    with True show ?thesis by (simp add: refill_def rl_init_def Let_def)
  qed
next
  case False
  then show ?thesis by (simp add: refill_def rl_init_def Let_def)
qed

lemma tryAcquire_seq_burst:
  assumes "0 < intervalMs cfg" and "\<forall>d. minDelayMs cfg = Some d \<longrightarrow> d = 0"
  shows "token_bound cfg s \<Longrightarrow> int (length ts) \<le> tokens s \<Longrightarrow>
         fst (tryAcquire_seq cfg ts s) = replicate (length ts) True"
proof (induction ts arbitrary: s)
  case Nil
  then show ?case by simp
next
  case (Cons t ts)
  let ?r = "refill cfg t s"
  let ?s' = "?r\<lparr>tokens := tokens ?r - 1, lastAcquire := t\<rparr>"
  from Cons.prems(1) have c: "0 \<le> tokensPerInterval cfg" by (simp add: token_bound_def)
  from refill_mono[OF assms(1) Cons.prems(1), of t] Cons.prems(2)
  have n: "int (length ts) + 1 \<le> tokens ?r" by simp
  then have "1 \<le> tokens ?r" by simp
  with assms(2) have ta: "tryAcquire cfg t t t s = (True, ?s')"
    by (auto simp add: tryAcquire_def Let_def split: option.split)
  from refill_token_bound[OF c assms(1) Cons.prems(1), of t] n
  have "token_bound cfg ?s'" by (simp add: token_bound_def)
  moreover from n have "int (length ts) \<le> tokens ?s'" by simp
  ultimately have "fst (tryAcquire_seq cfg ts ?s') = replicate (length ts) True"
    by (rule Cons.IH)
  with ta show ?case by (auto split: prod.split)
qed

text \<open>
  Claim C10, as stated, for a limiter with a minimum delay: the limiter of capacity 3 with
  a minimum delay of 100 ms is constructed at 1000 (a clock value above the minimum
  delay). Of three immediate calls of \<^verbatim>\<open>tryAcquire\<close> only the first returns true: the
  second comes 0 ms after an admission.
\<close>

theorem fresh_limiter_burst_counterexample:
  "fst (tryAcquire_seq \<lparr>tokensPerInterval = 3, intervalMs = 60000, minDelayMs = Some 100\<rparr>
         (replicate 3 1000)
         (rl_init \<lparr>tokensPerInterval = 3, intervalMs = 60000, minDelayMs = Some 100\<rparr> 1000))
     = [True, False, False]
   \<and> [True, False, False] \<noteq> replicate 3 True"
proof -
  let ?c = "\<lparr>tokensPerInterval = 3, intervalMs = 60000, minDelayMs = Some 100\<rparr>"
  let ?s = "\<lparr>tokens = 2, lastRefill = 1000, lastAcquire = 1000\<rparr>"
  have a: "tryAcquire ?c 1000 1000 1000 (rl_init ?c 1000) = (True, ?s)"
    by (simp add: tryAcquire_def refill_def rl_init_def Let_def)
  have b: "tryAcquire ?c 1000 1000 1000 ?s = (False, ?s)"
    by (simp add: tryAcquire_def refill_def Let_def)
  have r: "replicate 3 (1000::int) = [1000, 1000, 1000]"
    by (simp add: numeral_3_eq_3)
  have "replicate 3 True = [True, True, True]"
    by (simp add: numeral_3_eq_3)
  with a b r show ?thesis by simp
qed

text \<open>
  Claim C10, amended. A limiter starts with a full bucket (\<^verbatim>\<open>tokens\<close> is the capacity)
  and with \<^verbatim>\<open>lastAcquire = 0\<close>, so, provided the clock value is at least the minimum
  delay, the first \<^verbatim>\<open>tryAcquire\<close> is not denied for the minimum delay (it returns true
  exactly when the capacity is at least one); and for a fresh limiter with capacity \<open>c\<close>
  and no minimum delay configured, \<open>c\<close> immediate consecutive calls of
  \<^verbatim>\<open>tryAcquire\<close> all return true.
\<close>

theorem fresh_limiter_burst:
  assumes "0 < intervalMs cfg"
  shows "tokens (rl_init cfg t0) = tokensPerInterval cfg
       \<and> lastAcquire (rl_init cfg t0) = 0
       \<and> ((\<forall>d. minDelayMs cfg = Some d \<longrightarrow> d \<le> tc) \<longrightarrow>
            fst (tryAcquire cfg tr tc ta (rl_init cfg t0)) = (1 \<le> tokensPerInterval cfg))
       \<and> ((\<forall>d. minDelayMs cfg = Some d \<longrightarrow> d = 0) \<longrightarrow>
            fst (tryAcquire_seq cfg (replicate (nat (tokensPerInterval cfg)) t) (rl_init cfg t0))
              = replicate (nat (tokensPerInterval cfg)) True)"
proof -
  have A: "tokens (rl_init cfg t0) = tokensPerInterval cfg \<and> lastAcquire (rl_init cfg t0) = 0"
    by (simp add: rl_init_def)
  have B: "fst (tryAcquire cfg tr tc ta (rl_init cfg t0)) = (1 \<le> tokensPerInterval cfg)"
    if "\<forall>d. minDelayMs cfg = Some d \<longrightarrow> d \<le> tc"
  proof -
    have "lastAcquire (refill cfg tr (rl_init cfg t0)) = 0"
      by (simp add: refill_lastAcquire rl_init_def)
    with that have "fst (tryAcquire cfg tr tc ta (rl_init cfg t0))
        = (1 \<le> tokens (refill cfg tr (rl_init cfg t0)))"
      by (auto simp add: tryAcquire_def Let_def split: option.split)
    with refill_rl_init[OF assms, of tr t0] show ?thesis by simp
  qed
  have C: "fst (tryAcquire_seq cfg (replicate (nat (tokensPerInterval cfg)) t) (rl_init cfg t0))
              = replicate (nat (tokensPerInterval cfg)) True"
    if d: "\<forall>d. minDelayMs cfg = Some d \<longrightarrow> d = 0"
  proof (cases "0 \<le> tokensPerInterval cfg")
    case True
    let ?ts = "replicate (nat (tokensPerInterval cfg)) t"
    from True have "int (length ?ts) \<le> tokens (rl_init cfg t0)"
      by (simp add: rl_init_def)
    from tryAcquire_seq_burst[OF assms d rl_init_token_bound[OF True] this]
    show ?thesis by simp
  next
    case False
    then show ?thesis by simp
  qed
  from A B C show ?thesis by blast
qed

text \<open>
  The first test of \<^verbatim>\<open>RateLimiter.test.ts\<close>: capacity 3 and no minimum delay; three
  immediate calls return true.
\<close>

theorem fresh_limiter_burst_witness:
  "tokens (rl_init limiter3 1000) = 3
   \<and> lastAcquire (rl_init limiter3 1000) = 0
   \<and> fst (tryAcquire limiter3 1000 1000 1000 (rl_init limiter3 1000))
   \<and> fst (tryAcquire_seq limiter3 (replicate 3 1000) (rl_init limiter3 1000))
       = [True, True, True]"
proof -
  have h: "0 < intervalMs limiter3" by (simp add: limiter3_def)
  have d: "\<forall>d. minDelayMs limiter3 = Some d \<longrightarrow> d \<le> 1000"
    "\<forall>d. minDelayMs limiter3 = Some d \<longrightarrow> d = 0"
    by (simp_all add: limiter3_def)
  have n: "nat (tokensPerInterval limiter3) = 3" "tokensPerInterval limiter3 = 3"
    by (simp_all add: limiter3_def)
  have r: "replicate 3 True = [True, True, True]"
    by (simp add: numeral_3_eq_3)
  from fresh_limiter_burst[OF h, of 1000 1000 1000 1000 1000] d
  have "tokens (rl_init limiter3 1000) = tokensPerInterval limiter3
       \<and> lastAcquire (rl_init limiter3 1000) = 0
       \<and> fst (tryAcquire limiter3 1000 1000 1000 (rl_init limiter3 1000))
            = (1 \<le> tokensPerInterval limiter3)
       \<and> fst (tryAcquire_seq limiter3 (replicate (nat (tokensPerInterval limiter3)) 1000)
                (rl_init limiter3 1000))
              = replicate (nat (tokensPerInterval limiter3)) True"
    by blast
  then show ?thesis by (simp add: n r)
qed

section \<open>Properties of the TaskQueue\<close>

subsection \<open>The concurrency bound\<close>

lemma process_cases:
  "process s = s \<or>
   (running s < concurrency s \<and> queue s \<noteq> [] \<and>
    process s = s\<lparr>running := running s + 1, queue := tl (queue s),
                  executing := executing s @ [hd (queue s)],
                  started := started s @ [hd (queue s)]\<rparr>)"
  by (cases "queue s") (simp_all add: process_def Let_def)

lemma process_idle: "running s \<ge> concurrency s \<or> queue s = [] \<Longrightarrow> process s = s"
  by (auto simp add: process_def)

lemma process_starts:
  "running s < concurrency s \<Longrightarrow> queue s = task # rest \<Longrightarrow>
   process s = s\<lparr>running := running s + 1, queue := rest,
                 executing := executing s @ [task], started := started s @ [task]\<rparr>"
  by (simp add: process_def Let_def)

lemma wrapper_eq: "wrapper i r s = (Normal, s\<lparr>settled := (settled s)(i \<mapsto> r)\<rparr>)"
  by (cases r) (simp_all add: wrapper_def)

lemma tq_step_Settle:
  "i \<in> set (executing s) \<Longrightarrow>
   tq_step (Settle i r) s =
     (if delayMs s > 0
      then s\<lparr>settled := (settled s)(i \<mapsto> r), executing := remove1 i (executing s),
             delaying := delaying s @ [i]\<rparr>
      else release (s\<lparr>settled := (settled s)(i \<mapsto> r), executing := remove1 i (executing s)\<rparr>))"
  by (simp add: wrapper_eq resume_def Let_def)

lemma tq_run_Nil: "tq_run [] s = s"
  by (simp add: tq_run_def)

lemma tq_run_Cons: "tq_run (e # evs) s = tq_run evs (tq_step e s)"
  by (simp add: tq_run_def)

lemma tq_run_append: "tq_run (evs @ evs') s = tq_run evs' (tq_run evs s)"
  by (simp add: tq_run_def)

lemma length_remove1_mem: "i \<in> set xs \<Longrightarrow> int (length (remove1 i xs)) = int (length xs) - 1"
  by (simp add: length_remove1) (cases xs; simp)

lemma process_slots_ok: "slots_ok s \<Longrightarrow> slots_ok (process s)"
  using process_cases[of s] by (auto simp add: slots_ok_def)

lemma release_slots_ok:
  assumes "0 \<le> running s - 1" and "running s - 1 \<le> concurrency s"
    and "running s - 1 = int (length (executing s)) + int (length (delaying s))"
  shows "slots_ok (release s)"
  unfolding release_def using assms
  by (intro process_slots_ok) (simp add: slots_ok_def)

lemma tq_step_slots_ok:
  assumes "slots_ok s"
  shows "slots_ok (tq_step e s)"
proof (cases e)
  case Add
  from assms have "slots_ok (s\<lparr>queue := queue s @ [added s], added := Suc (added s)\<rparr>)"
    by (simp add: slots_ok_def)
  then show ?thesis unfolding Add tq_step.simps by (rule process_slots_ok)
next
  case (Settle i r)
  show ?thesis
  proof (cases "i \<in> set (executing s)")
    case True
    note len = length_remove1_mem[OF True]
    show ?thesis
    proof (cases "delayMs s > 0")
      case d: True
      with assms len show ?thesis
        unfolding Settle tq_step_Settle[OF True] by (simp add: slots_ok_def)
    next
      case d: False
      let ?s1 = "s\<lparr>settled := (settled s)(i \<mapsto> r), executing := remove1 i (executing s)\<rparr>"
      from assms len have "slots_ok (release ?s1)"
        by (intro release_slots_ok) (simp_all add: slots_ok_def)
      with d show ?thesis
        unfolding Settle tq_step_Settle[OF True] by simp
    qed
  next
    case False
    with assms show ?thesis by (simp add: Settle)
  qed
next
  case (Timer i)
  show ?thesis
  proof (cases "i \<in> set (delaying s)")
    case True
    let ?s1 = "s\<lparr>delaying := remove1 i (delaying s)\<rparr>"
    from assms length_remove1_mem[OF True] have "slots_ok (release ?s1)"
      by (intro release_slots_ok) (simp_all add: slots_ok_def)
    with True show ?thesis
      unfolding Timer by simp
  next
    case False
    with assms show ?thesis by (simp add: Timer)
  qed
qed

lemma tq_run_slots_ok: "slots_ok s \<Longrightarrow> slots_ok (tq_run evs s)"
  by (induction evs arbitrary: s) (simp_all add: tq_run_Nil tq_run_Cons tq_step_slots_ok)

lemma process_concurrency: "concurrency (process s) = concurrency s"
  using process_cases[of s] by auto

lemma tq_step_concurrency: "concurrency (tq_step e s) = concurrency s"
  by (cases e)
    (simp_all add: wrapper_eq resume_def release_def process_concurrency Let_def)

lemma tq_run_concurrency: "concurrency (tq_run evs s) = concurrency s"
  by (induction evs arbitrary: s) (simp_all add: tq_run_Nil tq_run_Cons tq_step_concurrency)

lemma tq_init_slots_ok:
  "(case opt_concurrency options of None \<Rightarrow> True | Some c \<Rightarrow> 0 \<le> c) \<Longrightarrow>
   slots_ok (tq_init options)"
  by (simp add: slots_ok_def tq_init_def split: option.splits)

text \<open>
  Claim C6. For a queue constructed with a concurrency option that is absent or not
  negative, after every sequence of calls of \<^verbatim>\<open>add\<close>, task completions and delay
  timers \<open>0 \<le> running \<le> concurrency\<close>, where \<^verbatim>\<open>concurrency\<close> is the limit fixed by
  the constructor; \<^verbatim>\<open>running\<close> counts the tasks that execute and the delays after a
  task, so at most \<^verbatim>\<open>concurrency\<close> tasks execute at once; and \<^verbatim>\<open>process()\<close> starts
  a task only when \<open>running < concurrency\<close> and the queue is not empty.
\<close>

theorem concurrency_bound:
  fixes s :: "('v, 'e) tq_state"
  assumes "case opt_concurrency options of None \<Rightarrow> True | Some c \<Rightarrow> 0 \<le> c"
    and "s = tq_run evs (tq_init options)"
  shows "0 \<le> running s \<and> running s \<le> concurrency s
       \<and> running s = int (length (executing s)) + int (length (delaying s))
       \<and> int (length (executing s)) \<le> concurrency s
       \<and> concurrency s = (case opt_concurrency options of
                           Some c \<Rightarrow> if c \<noteq> 0 then c else 1 | None \<Rightarrow> 1)
       \<and> (process s \<noteq> s \<longrightarrow>
            running s < concurrency s \<and> queue s \<noteq> [] \<and>
            running (process s) = running s + 1 \<and>
            executing (process s) = executing s @ [hd (queue s)])"
proof -
  from tq_run_slots_ok[OF tq_init_slots_ok[OF assms(1)], of evs] assms(2)
  have ok: "slots_ok s" by simp
  have c: "concurrency s = (case opt_concurrency options of
                           Some c \<Rightarrow> if c \<noteq> 0 then c else 1 | None \<Rightarrow> 1)"
    unfolding assms(2) tq_run_concurrency by (simp add: tq_init_def)
  have p: "process s \<noteq> s \<longrightarrow>
            running s < concurrency s \<and> queue s \<noteq> [] \<and>
            running (process s) = running s + 1 \<and>
            executing (process s) = executing s @ [hd (queue s)]"
    using process_cases[of s] by auto
  from ok have "0 \<le> running s \<and> running s \<le> concurrency s
       \<and> running s = int (length (executing s)) + int (length (delaying s))
       \<and> int (length (executing s)) \<le> concurrency s"
    by (simp add: slots_ok_def)
  with c p show ?thesis by blast
qed

text \<open>
  The queue of the class comment: two slots, three tasks added. Two tasks execute and one
  waits; when the first has completed and its delay has passed, the third starts.
\<close>

theorem concurrency_bound_witness:
  "running (tq_run [Add, Add, Add] queue2) = 2
   \<and> concurrency (tq_run [Add, Add, Add] queue2) = 2
   \<and> executing (tq_run [Add, Add, Add] queue2) = [0, 1]
   \<and> queue (tq_run [Add, Add, Add] queue2) = [2]
   \<and> process (tq_run [Add, Add] queue2) = tq_run [Add, Add] queue2
   \<and> running (tq_run [Add, Add, Add, Settle 0 (Fulfilled ''a'')] queue2) = 2
   \<and> executing (tq_run [Add, Add, Add, Settle 0 (Fulfilled ''a'')] queue2) = [1]
   \<and> executing (tq_run [Add, Add, Add, Settle 0 (Fulfilled ''a''), Timer 0] queue2) = [1, 2]"
proof -
  let ?o = "\<lparr>opt_concurrency = Some 2, opt_delayMs = Some 1000\<rparr>"
  let ?s = "tq_run [Add, Add, Add] queue2"
  have h: "case opt_concurrency ?o of None \<Rightarrow> True | Some c \<Rightarrow> 0 \<le> c" by simp
  have e: "?s = tq_run [Add, Add, Add] (tq_init ?o)" by (simp add: queue2_def)
  have e2: "tq_run [Add, Add] queue2 = tq_run [Add, Add] (tq_init ?o)" by (simp add: queue2_def)
  have r: "running ?s = 2" "executing ?s = [0, 1]" "queue ?s = [2]"
    by code_simp+
  have q: "queue (tq_run [Add, Add] queue2) = []" by code_simp
  from concurrency_bound[OF h e] have c: "concurrency ?s = 2" by simp
  from concurrency_bound[OF h e2] q
  have p: "process (tq_run [Add, Add] queue2) = tq_run [Add, Add] queue2" by blast
  have r': "running (tq_run [Add, Add, Add, Settle 0 (Fulfilled ''a'')] queue2) = 2"
    "executing (tq_run [Add, Add, Add, Settle 0 (Fulfilled ''a'')] queue2) = [1]"
    "executing (tq_run [Add, Add, Add, Settle 0 (Fulfilled ''a''), Timer 0] queue2) = [1, 2]"
    by code_simp+
  from r c p r' show ?thesis by simp
qed

subsection \<open>Start order\<close>





lemma process_work_conserving:
  assumes "tl (queue s) \<noteq> [] \<Longrightarrow> concurrency s \<le> running s + 1"
  shows "work_conserving (process s)"
proof (cases "running s \<ge> concurrency s \<or> queue s = []")
  case True
  then show ?thesis by (auto simp add: process_idle work_conserving_def)
next
  case False
  then obtain task rest where q: "queue s = task # rest" by (cases "queue s") auto
  from False have "running s < concurrency s" by simp
  from process_starts[OF this q] assms q show ?thesis
    by (auto simp add: work_conserving_def)
qed

lemma release_work_conserving:
  assumes "work_conserving s"
  shows "work_conserving (release s)"
  unfolding release_def
proof (rule process_work_conserving)
  assume "tl (queue (s\<lparr>running := running s - 1\<rparr>)) \<noteq> []"
  then have "queue s \<noteq> []" by auto
  with assms show "concurrency (s\<lparr>running := running s - 1\<rparr>)
      \<le> running (s\<lparr>running := running s - 1\<rparr>) + 1"
    by (simp add: work_conserving_def)
qed

lemma tq_step_work_conserving:
  assumes "work_conserving s"
  shows "work_conserving (tq_step e s)"
proof (cases e)
  case Add
  let ?s1 = "s\<lparr>queue := queue s @ [added s], added := Suc (added s)\<rparr>"
  have "work_conserving (process ?s1)"
  proof (rule process_work_conserving)
    assume "tl (queue ?s1) \<noteq> []"
    then have "queue s \<noteq> []" by auto
    with assms show "concurrency ?s1 \<le> running ?s1 + 1"
      by (simp add: work_conserving_def)
  qed
  then show ?thesis by (simp add: Add)
next
  case (Settle i r)
  show ?thesis
  proof (cases "i \<in> set (executing s)")
    case True
    let ?s1 = "s\<lparr>settled := (settled s)(i \<mapsto> r), executing := remove1 i (executing s)\<rparr>"
    from assms have "work_conserving ?s1" by (simp add: work_conserving_def)
    then have "work_conserving (release ?s1)" by (rule release_work_conserving)
    with assms show ?thesis
      unfolding Settle tq_step_Settle[OF True] by (simp add: work_conserving_def)
  next
    case False
    with assms show ?thesis by (simp add: Settle)
  qed
next
  case (Timer i)
  let ?s1 = "s\<lparr>delaying := remove1 i (delaying s)\<rparr>"
  from assms have "work_conserving ?s1" by (simp add: work_conserving_def)
  then have "work_conserving (release ?s1)" by (rule release_work_conserving)
  with assms show ?thesis by (simp add: Timer)
qed

lemma tq_run_work_conserving: "work_conserving s \<Longrightarrow> work_conserving (tq_run evs s)"
  by (induction evs arbitrary: s)
    (simp_all add: tq_run_Nil tq_run_Cons tq_step_work_conserving)

lemma tq_init_work_conserving: "work_conserving (tq_init options)"
  by (simp add: work_conserving_def tq_init_def)





subsection \<open>Failing tasks\<close>

text \<open>
  Two states that differ at most in the promise of task \<open>i\<close> stay so under every event:
  no step of the queue reads \<open>settled\<close>.
\<close>

lemma process_settled_same: "settled (process s) = settled s"
  using process_cases[of s] by auto

lemma release_settled_same: "settled (release s) = settled s"
  by (simp add: release_def process_settled_same)

lemma tq_step_settled:
  "settled (tq_step e s) =
     (case e of
        Settle j r \<Rightarrow> if j \<in> set (executing s) then (settled s)(j \<mapsto> r) else settled s
      | _ \<Rightarrow> settled s)"
  by (cases e)
    (simp_all add: wrapper_eq resume_def Let_def release_settled_same process_settled_same)

lemma tq_step_settled_upd:
  "\<exists>x. tq_step e (s\<lparr>settled := (settled s)(i := y)\<rparr>)
        = (tq_step e s)\<lparr>settled := (settled (tq_step e s))(i := x)\<rparr>"
proof -
  let ?x = "case e of Settle j r \<Rightarrow> if j = i \<and> j \<in> set (executing s) then Some r else y
            | _ \<Rightarrow> y"
  have "tq_step e (s\<lparr>settled := (settled s)(i := y)\<rparr>)
        = (tq_step e s)\<lparr>settled := (settled (tq_step e s))(i := ?x)\<rparr>"
    by (cases s; cases e)
      (auto simp add: wrapper_eq resume_def release_def process_def Let_def fun_eq_iff
        split: list.split)
  then show ?thesis by blast
qed

lemma tq_run_settled_upd:
  "\<exists>x. tq_run evs (s\<lparr>settled := (settled s)(i := y)\<rparr>)
        = (tq_run evs s)\<lparr>settled := (settled (tq_run evs s))(i := x)\<rparr>"
proof (induction evs arbitrary: s y)
  case Nil
  have "tq_run [] (s\<lparr>settled := (settled s)(i := y)\<rparr>)
        = (tq_run [] s)\<lparr>settled := (settled (tq_run [] s))(i := y)\<rparr>"
    by (simp add: tq_run_Nil)
  then show ?case by blast
next
  case (Cons e evs)
  from tq_step_settled_upd[of e s i y] obtain x where
    x: "tq_step e (s\<lparr>settled := (settled s)(i := y)\<rparr>)
        = (tq_step e s)\<lparr>settled := (settled (tq_step e s))(i := x)\<rparr>" by blast
  from Cons.IH[of "tq_step e s" x] obtain x' where
    "tq_run evs ((tq_step e s)\<lparr>settled := (settled (tq_step e s))(i := x)\<rparr>)
       = (tq_run evs (tq_step e s))\<lparr>settled := (settled (tq_run evs (tq_step e s)))(i := x')\<rparr>"
    by blast
  then have "tq_run (e # evs) (s\<lparr>settled := (settled s)(i := y)\<rparr>)
       = (tq_run (e # evs) s)\<lparr>settled := (settled (tq_run (e # evs) s))(i := x')\<rparr>"
    unfolding tq_run_Cons x .
  then show ?case by blast
qed

lemma Settle_failure_as_success:
  assumes "i \<in> set (executing s)"
  shows "tq_step (Settle i (Rejected err)) s =
         (tq_step (Settle i (Fulfilled v)) s)
           \<lparr>settled := (settled (tq_step (Settle i (Fulfilled v)) s))(i := Some (Rejected err))\<rparr>"
  using assms
  by (cases s)
    (auto simp add: wrapper_eq resume_def release_def process_def Let_def fun_eq_iff
      split: list.split)

text \<open>
  Claim C8. Let task \<open>i\<close> be executing in a reachable state of the queue and let it fail
  with \<open>err\<close>. The closure of \<^verbatim>\<open>add\<close> catches the failure and completes normally, so
  \<^verbatim>\<open>process()\<close> continues after its \<^verbatim>\<open>await\<close>; the failure is stored in the promise
  of task \<open>i\<close> and in no other; whatever happens later (\<open>evs'\<close>), the queue is in the
  state in which it would be had the task succeeded, but for the promise of task \<open>i\<close>;
  \<^verbatim>\<open>running\<close> is decremented and \<^verbatim>\<open>process()\<close> is called, at once without a delay
  and when the timer fires with one; and afterwards the accounting of \<^verbatim>\<open>running\<close>
  is intact and no task waits while a slot is free.
\<close>

theorem failure_isolation:
  fixes s :: "('v, 'e) tq_state"
  assumes "case opt_concurrency options of None \<Rightarrow> True | Some c \<Rightarrow> 0 \<le> c"
    and "s = tq_run evs (tq_init options)"
    and "i \<in> set (executing s)"
  shows "fst (wrapper i (Rejected err) s) = Normal
       \<and> settled (tq_step (Settle i (Rejected err)) s) = (settled s)(i \<mapsto> Rejected err)
       \<and> (\<exists>x. tq_run evs' (tq_step (Settle i (Rejected err)) s) =
               (tq_run evs' (tq_step (Settle i (Fulfilled v)) s))
                 \<lparr>settled := (settled (tq_run evs' (tq_step (Settle i (Fulfilled v)) s)))(i := x)\<rparr>)
       \<and> (\<not> 0 < delayMs s \<longrightarrow>
            tq_step (Settle i (Rejected err)) s =
              process (s\<lparr>settled := (settled s)(i \<mapsto> Rejected err),
                         executing := remove1 i (executing s),
                         running := running s - 1\<rparr>))
       \<and> (0 < delayMs s \<longrightarrow>
            i \<in> set (delaying (tq_step (Settle i (Rejected err)) s)) \<and>
            running (tq_step (Settle i (Rejected err)) s) = running s \<and>
            tq_step (Timer i) (tq_step (Settle i (Rejected err)) s) =
              process (s\<lparr>settled := (settled s)(i \<mapsto> Rejected err),
                         executing := remove1 i (executing s),
                         delaying := remove1 i (delaying s @ [i]),
                         running := running s - 1\<rparr>))
       \<and> slots_ok (tq_run evs' (tq_step (Settle i (Rejected err)) s))
       \<and> work_conserving (tq_run evs' (tq_step (Settle i (Rejected err)) s))"
proof -
  let ?f = "Settle i (Rejected err) :: ('v, 'e) tq_event"
  have A: "fst (wrapper i (Rejected err) s) = Normal"
    by (simp add: wrapper_def)
  have B: "settled (tq_step ?f s) = (settled s)(i \<mapsto> Rejected err)"
    unfolding tq_step_settled using assms(3) by simp
  from tq_run_settled_upd[of evs' "tq_step (Settle i (Fulfilled v)) s" i "Some (Rejected err)"]
  have C: "\<exists>x. tq_run evs' (tq_step ?f s) =
               (tq_run evs' (tq_step (Settle i (Fulfilled v)) s))
                 \<lparr>settled := (settled (tq_run evs' (tq_step (Settle i (Fulfilled v)) s)))(i := x)\<rparr>"
    unfolding Settle_failure_as_success[OF assms(3), of err v] .
  have D: "\<not> 0 < delayMs s \<longrightarrow>
            tq_step ?f s =
              process (s\<lparr>settled := (settled s)(i \<mapsto> Rejected err),
                         executing := remove1 i (executing s),
                         running := running s - 1\<rparr>)"
    using assms(3) by (simp add: wrapper_eq resume_def Let_def release_def)
  have E: "0 < delayMs s \<longrightarrow>
            i \<in> set (delaying (tq_step ?f s)) \<and>
            running (tq_step ?f s) = running s \<and>
            tq_step (Timer i) (tq_step ?f s) =
              process (s\<lparr>settled := (settled s)(i \<mapsto> Rejected err),
                         executing := remove1 i (executing s),
                         delaying := remove1 i (delaying s @ [i]),
                         running := running s - 1\<rparr>)"
    using assms(3) by (simp add: wrapper_eq resume_def Let_def release_def)
  from tq_run_slots_ok[OF tq_init_slots_ok[OF assms(1)], of evs] assms(2)
  have "slots_ok s" by simp
  then have "slots_ok (tq_step ?f s)" by (rule tq_step_slots_ok)
  then have F: "slots_ok (tq_run evs' (tq_step ?f s))" by (rule tq_run_slots_ok)
  from tq_run_work_conserving[OF tq_init_work_conserving, of evs options] assms(2)
  have "work_conserving s" by simp
  then have "work_conserving (tq_step ?f s)" by (rule tq_step_work_conserving)
  then have G: "work_conserving (tq_run evs' (tq_step ?f s))" by (rule tq_run_work_conserving)
  from A B C D E F G show ?thesis by blast
qed

text \<open>
  Tasks A, B and C on the queue with one slot: A succeeds, B fails, C succeeds. Each
  promise holds its own task's result, the three tasks have started in order, and the
  queue is idle at the end. On the queue with a delay, the slot of a failed task is
  released when the timer fires.
\<close>

theorem failure_isolation_witness:
  "executing (tq_run [Add, Add, Add, Settle 0 (Fulfilled ''a'')] queue1) = [1]
   \<and> settled (tq_run [Add, Add, Add, Settle 0 (Fulfilled ''a''), Settle 1 (Rejected ''boom''),
                       Settle 2 (Fulfilled ''c'')] queue1) 0 = Some (Fulfilled ''a'')
   \<and> settled (tq_run [Add, Add, Add, Settle 0 (Fulfilled ''a''), Settle 1 (Rejected ''boom''),
                       Settle 2 (Fulfilled ''c'')] queue1) 1 = Some (Rejected ''boom'')
   \<and> settled (tq_run [Add, Add, Add, Settle 0 (Fulfilled ''a''), Settle 1 (Rejected ''boom''),
                       Settle 2 (Fulfilled ''c'')] queue1) 2 = Some (Fulfilled ''c'')
   \<and> running (tq_run [Add, Add, Add, Settle 0 (Fulfilled ''a''), Settle 1 (Rejected ''boom''),
                       Settle 2 (Fulfilled ''c'')] queue1) = 0
   \<and> started (tq_run [Add, Add, Add, Settle 0 (Fulfilled ''a''), Settle 1 (Rejected ''boom''),
                       Settle 2 (Fulfilled ''c'')] queue1) = [0, 1, 2]
   \<and> running (tq_run [Add, Settle 0 (Rejected ''boom'')] queue2) = 1
   \<and> running (tq_run [Add, Settle 0 (Rejected ''boom''), Timer 0] queue2) = 0"
proof -
  let ?o1 = "\<lparr>opt_concurrency = Some 1, opt_delayMs = None\<rparr>"
  let ?o2 = "\<lparr>opt_concurrency = Some 2, opt_delayMs = Some 1000\<rparr>"
  let ?e = "[Add, Add, Add, Settle 0 (Fulfilled ''a'')] :: (string, string) tq_event list"
  let ?s = "tq_run ?e queue1"
  let ?t = "tq_run [Add] queue2"
  have h: "case opt_concurrency ?o1 of None \<Rightarrow> True | Some c \<Rightarrow> 0 \<le> c"
    "case opt_concurrency ?o2 of None \<Rightarrow> True | Some c \<Rightarrow> 0 \<le> c" by simp_all
  have e: "?s = tq_run ?e (tq_init ?o1)" "?t = tq_run [Add] (tq_init ?o2)"
    by (simp_all add: queue1_def queue2_def)
  have x: "executing ?s = [1]" "executing ?t = [0]" by code_simp+
  then have m: "1 \<in> set (executing ?s)" "0 \<in> set (executing ?t)" by simp_all
  have d: "\<not> 0 < delayMs ?s" "0 < delayMs ?t" by code_simp+
  have r: "tq_run [Add, Add, Add, Settle 0 (Fulfilled ''a''), Settle 1 (Rejected ''boom''),
                   Settle 2 (Fulfilled ''c'')] queue1
           = tq_run [Settle 2 (Fulfilled ''c'')] (tq_step (Settle 1 (Rejected ''boom'')) ?s)"
    "tq_run [Add, Settle 0 (Rejected ''boom'')] queue2 = tq_step (Settle 0 (Rejected ''boom'')) ?t"
    "tq_run [Add, Settle 0 (Rejected ''boom''), Timer 0] queue2
       = tq_step (Timer 0) (tq_step (Settle 0 (Rejected ''boom'')) ?t)"
    by (simp_all add: tq_run_def)
  from failure_isolation[OF h(1) e(1) m(1), of "''boom''" "[Settle 2 (Fulfilled ''c'')]" "''b''"] d(1)
  have a: "settled (tq_step (Settle 1 (Rejected ''boom'')) ?s) = (settled ?s)(1 \<mapsto> Rejected ''boom'')"
    and b: "slots_ok (tq_run [Settle 2 (Fulfilled ''c'')] (tq_step (Settle 1 (Rejected ''boom'')) ?s))"
    by blast+
  from failure_isolation[OF h(2) e(2) m(2), of "''boom''" "[]" "''b''"] d(2)
  have c: "running (tq_step (Settle 0 (Rejected ''boom'')) ?t) = running ?t" by blast
  have v: "running ?t = 1" by code_simp
  have rest: "settled (tq_run [Add, Add, Add, Settle 0 (Fulfilled ''a''), Settle 1 (Rejected ''boom''),
                       Settle 2 (Fulfilled ''c'')] queue1) 0 = Some (Fulfilled ''a'')"
    "settled (tq_run [Add, Add, Add, Settle 0 (Fulfilled ''a''), Settle 1 (Rejected ''boom''),
                       Settle 2 (Fulfilled ''c'')] queue1) 1 = Some (Rejected ''boom'')"
    "settled (tq_run [Add, Add, Add, Settle 0 (Fulfilled ''a''), Settle 1 (Rejected ''boom''),
                       Settle 2 (Fulfilled ''c'')] queue1) 2 = Some (Fulfilled ''c'')"
    "running (tq_run [Add, Add, Add, Settle 0 (Fulfilled ''a''), Settle 1 (Rejected ''boom''),
                       Settle 2 (Fulfilled ''c'')] queue1) = 0"
    "started (tq_run [Add, Add, Add, Settle 0 (Fulfilled ''a''), Settle 1 (Rejected ''boom''),
                       Settle 2 (Fulfilled ''c'')] queue1) = [0, 1, 2]"
    "running (tq_run [Add, Settle 0 (Rejected ''boom''), Timer 0] queue2) = 0"
    by code_simp+
  from x(1) rest c v r(2) show ?thesis by simp
qed

subsection \<open>drain\<close>

lemma drain_idle:
  "\<not> (length (queue s) > 0 \<or> running s > 0) \<Longrightarrow> drain batches s = Some ([], s)"
  by (cases batches) simp_all

lemma drain_busy_Cons:
  "length (queue s) > 0 \<or> running s > 0 \<Longrightarrow>
   drain (evs # rest) s = Some (ws, s') \<longleftrightarrow>
     (\<exists>ws'. ws = 100 # ws' \<and> drain rest (tq_run evs s) = Some (ws', s'))"
  by (auto split: option.splits)

text \<open>
  \<^verbatim>\<open>drain\<close> returns at the first test of its loop that finds the queue empty and
  nothing running, after one sleep of 100 ms for every earlier test, in the state the
  events of the queue have produced.
\<close>

lemma drain_Some_iff:
  "drain batches s = Some (ws, s') \<longleftrightarrow>
   (\<exists>k\<le>length batches.
      ws = replicate k 100 \<and> s' = tq_run (concat (take k batches)) s \<and>
      \<not> (length (queue s') > 0 \<or> running s' > 0) \<and>
      (\<forall>j<k. length (queue (tq_run (concat (take j batches)) s)) > 0 \<or>
              running (tq_run (concat (take j batches)) s) > 0))"
  (is "?L batches s ws = ?R batches s ws")
proof (induction batches arbitrary: s ws)
  case Nil
  show ?case by (auto simp add: tq_run_Nil)
next
  case (Cons b bs)
  show ?case
  proof (cases "length (queue s) > 0 \<or> running s > 0")
    case False
    then have L: "?L (b # bs) s ws \<longleftrightarrow> ws = [] \<and> s' = s" by auto
    have R: "?R (b # bs) s ws \<longleftrightarrow> ws = [] \<and> s' = s"
    proof
      assume "?R (b # bs) s ws"
      then obtain k where k: "ws = replicate k 100" "s' = tq_run (concat (take k (b # bs))) s"
        "\<forall>j<k. length (queue (tq_run (concat (take j (b # bs))) s)) > 0 \<or>
              running (tq_run (concat (take j (b # bs))) s) > 0"
        by blast
      have "k = 0"
      proof (rule ccontr)
        assume "k \<noteq> 0"
        then have "0 < k" by simp
        with k(3) have "length (queue (tq_run (concat (take 0 (b # bs))) s)) > 0 \<or>
              running (tq_run (concat (take 0 (b # bs))) s) > 0" by blast
        with False show False by (simp add: tq_run_Nil)
      qed
      with k(1,2) show "ws = [] \<and> s' = s" by (simp add: tq_run_Nil)
    next
      assume a: "ws = [] \<and> s' = s"
      with False have "0 \<le> length (b # bs) \<and>
        ws = replicate 0 100 \<and> s' = tq_run (concat (take 0 (b # bs))) s \<and>
        \<not> (length (queue s') > 0 \<or> running s' > 0) \<and>
        (\<forall>j<0. length (queue (tq_run (concat (take j (b # bs))) s)) > 0 \<or>
              running (tq_run (concat (take j (b # bs))) s) > 0)"
        by (simp add: tq_run_Nil)
      then show "?R (b # bs) s ws" by blast
    qed
    from L R show ?thesis by simp
  next
    case True
    have run: "tq_run (concat (take (Suc j) (b # bs))) s = tq_run (concat (take j bs)) (tq_run b s)"
      for j by (simp add: tq_run_append)
    show ?thesis
    proof
      assume "?L (b # bs) s ws"
      with drain_busy_Cons[OF True, of b bs ws s']
      obtain ws' where ws': "ws = 100 # ws'" "drain bs (tq_run b s) = Some (ws', s')"
        by blast
      from ws'(2) Cons.IH[of "tq_run b s" ws'] obtain k where
        k: "k \<le> length bs" "ws' = replicate k 100"
          "s' = tq_run (concat (take k bs)) (tq_run b s)"
          "\<not> (length (queue s') > 0 \<or> running s' > 0)"
          "\<forall>j<k. length (queue (tq_run (concat (take j bs)) (tq_run b s))) > 0 \<or>
              running (tq_run (concat (take j bs)) (tq_run b s)) > 0"
        by blast
      have all: "\<forall>j<Suc k. length (queue (tq_run (concat (take j (b # bs))) s)) > 0 \<or>
              running (tq_run (concat (take j (b # bs))) s) > 0"
      proof (intro allI impI)
        fix j assume j: "j < Suc k"
        show "length (queue (tq_run (concat (take j (b # bs))) s)) > 0 \<or>
              running (tq_run (concat (take j (b # bs))) s) > 0"
        proof (cases j)
          case 0
          with True show ?thesis by (simp add: tq_run_Nil)
        next
          case (Suc j')
          with j k(5) show ?thesis unfolding Suc run by simp
        qed
      qed
      from k(1) have "Suc k \<le> length (b # bs)" by simp
      moreover from ws'(1) k(2) have "ws = replicate (Suc k) 100" by simp
      moreover from k(3) have "s' = tq_run (concat (take (Suc k) (b # bs))) s"
        unfolding run .
      ultimately show "?R (b # bs) s ws" using k(4) all by blast
    next
      assume "?R (b # bs) s ws"
      then obtain k where k: "k \<le> length (b # bs)" "ws = replicate k 100"
        "s' = tq_run (concat (take k (b # bs))) s"
        "\<not> (length (queue s') > 0 \<or> running s' > 0)"
        "\<forall>j<k. length (queue (tq_run (concat (take j (b # bs))) s)) > 0 \<or>
              running (tq_run (concat (take j (b # bs))) s) > 0"
        by blast
      have "k \<noteq> 0"
      proof
        assume "k = 0"
        with k(3) have "s' = s" by (simp add: tq_run_Nil)
        with True k(4) show False by simp
      qed
      then obtain k' where k': "k = Suc k'" by (cases k) auto
      from k(5) have "\<forall>j<k'. length (queue (tq_run (concat (take (Suc j) (b # bs))) s)) > 0 \<or>
              running (tq_run (concat (take (Suc j) (b # bs))) s) > 0"
        unfolding k' by auto
      then have all: "\<forall>j<k'. length (queue (tq_run (concat (take j bs)) (tq_run b s))) > 0 \<or>
              running (tq_run (concat (take j bs)) (tq_run b s)) > 0"
        unfolding run .
      from k(3) have s': "s' = tq_run (concat (take k' bs)) (tq_run b s)"
        unfolding k' run .
      from k(1) k' have "k' \<le> length bs" by simp
      with s' k(4) all Cons.IH[of "tq_run b s" "replicate k' 100"]
      have "drain bs (tq_run b s) = Some (replicate k' 100, s')" by blast
      moreover from k(2) k' have "ws = 100 # replicate k' 100" by simp
      ultimately show "?L (b # bs) s ws"
        using drain_busy_Cons[OF True, of b bs ws s'] by blast
    qed
  qed
qed

text \<open>
  Claim C9. For a queue in a reachable state, \<^verbatim>\<open>drain\<close> returns exactly when a test of
  its loop finds \<^verbatim>\<open>queue\<close> empty and \<^verbatim>\<open>running\<close> zero: it returns at the first such
  test, having slept 100 ms after every earlier test, and does not return while no test
  finds the queue idle. The state at the return is the one the events of the queue have
  produced: \<^verbatim>\<open>drain\<close> itself changes nothing. On a queue that is already idle
  (\<^verbatim>\<open>size()\<close> is 0 and nothing runs) it returns at once, without a sleep.
\<close>

theorem drain_returns_when_idle:
  fixes s :: "('v, 'e) tq_state"
  assumes "case opt_concurrency options of None \<Rightarrow> True | Some c \<Rightarrow> 0 \<le> c"
    and "s = tq_run evs (tq_init options)"
  shows "(drain batches s = Some (ws, s') \<longleftrightarrow>
           (\<exists>k\<le>length batches.
              ws = replicate k 100 \<and> s' = tq_run (concat (take k batches)) s \<and>
              queue s' = [] \<and> running s' = 0 \<and>
              (\<forall>j<k. \<not> (queue (tq_run (concat (take j batches)) s) = [] \<and>
                         running (tq_run (concat (take j batches)) s) = 0))))
       \<and> (tq_size s = 0 \<and> running s = 0 \<longrightarrow> drain batches s = Some ([], s))"
proof -
  have reach: "0 \<le> running (tq_run es s)" for es
  proof -
    from tq_run_slots_ok[OF tq_init_slots_ok[OF assms(1)], of "evs @ es"] assms(2)
    show ?thesis by (simp add: tq_run_append slots_ok_def)
  qed
  have idle: "(length (queue (tq_run es s)) > 0 \<or> running (tq_run es s) > 0)
      \<longleftrightarrow> \<not> (queue (tq_run es s) = [] \<and> running (tq_run es s) = 0)" for es
    using reach[of es] by auto
  have A: "drain batches s = Some (ws, s') \<longleftrightarrow>
           (\<exists>k\<le>length batches.
              ws = replicate k 100 \<and> s' = tq_run (concat (take k batches)) s \<and>
              queue s' = [] \<and> running s' = 0 \<and>
              (\<forall>j<k. \<not> (queue (tq_run (concat (take j batches)) s) = [] \<and>
                         running (tq_run (concat (take j batches)) s) = 0)))"
    unfolding drain_Some_iff using idle by auto
  have B: "tq_size s = 0 \<and> running s = 0 \<longrightarrow> drain batches s = Some ([], s)"
    by (auto simp add: tq_size_def drain_idle)
  from A B show ?thesis by blast
qed

text \<open>
  Two tasks on the queue with one slot; the first completes during the first sleep of
  \<^verbatim>\<open>drain\<close>, the second during the second sleep: \<^verbatim>\<open>drain\<close> returns after two sleeps.
  If the second task has not completed when the observation ends, \<^verbatim>\<open>drain\<close> is still
  waiting. On the fresh queue it returns at once.
\<close>

theorem drain_returns_when_idle_witness:
  "map_option fst (drain [[Settle 0 (Fulfilled ''a'')], [Settle 1 (Fulfilled ''b'')], []]
                    (tq_run [Add, Add] queue1)) = Some [100, 100]
   \<and> drain [[Settle 0 (Fulfilled ''a'')], [Settle 1 (Fulfilled ''b'')], []]
        (tq_run [Add, Add] queue1)
       = Some ([100, 100],
               tq_run [Settle 0 (Fulfilled ''a''), Settle 1 (Fulfilled ''b'')]
                 (tq_run [Add, Add] queue1))
   \<and> drain [[Settle 0 (Fulfilled ''a'')]] (tq_run [Add, Add] queue1) = None
   \<and> drain [] queue1 = Some ([], queue1)"
proof -
  let ?o = "\<lparr>opt_concurrency = Some 1, opt_delayMs = None\<rparr>"
  let ?s = "tq_run [Add, Add] queue1"
  let ?b = "[[Settle 0 (Fulfilled ''a'')], [Settle 1 (Fulfilled ''b'')], []]
              :: (string, string) tq_event list list"
  let ?s' = "tq_run [Settle 0 (Fulfilled ''a''), Settle 1 (Fulfilled ''b'')] ?s"
  have h: "case opt_concurrency ?o of None \<Rightarrow> True | Some c \<Rightarrow> 0 \<le> c" by simp
  have e: "?s = tq_run [Add, Add] (tq_init ?o)" "queue1 = tq_run [] (tq_init ?o)"
    by (simp_all add: queue1_def tq_run_def)
  have t: "concat (take 2 ?b) = [Settle 0 (Fulfilled ''a''), Settle 1 (Fulfilled ''b'')]"
    "concat (take 0 ?b) = []" "concat (take 1 ?b) = [Settle 0 (Fulfilled ''a'')]"
    by (simp_all add: numeral_2_eq_2)
  have v: "queue ?s' = []" "running ?s' = 0" "running (tq_run [] ?s) = 1"
    "running (tq_run [Settle 0 (Fulfilled ''a'')] ?s) = 1"
    by code_simp+
  have "\<forall>j<2. \<not> (queue (tq_run (concat (take j ?b)) ?s) = [] \<and>
                  running (tq_run (concat (take j ?b)) ?s) = 0)"
  proof (intro allI impI)
    fix j :: nat assume "j < 2"
    then have "j = 0 \<or> j = 1" by auto
    then show "\<not> (queue (tq_run (concat (take j ?b)) ?s) = [] \<and>
                  running (tq_run (concat (take j ?b)) ?s) = 0)"
      using v(3,4) t(2,3) by auto
  qed
  with v(1,2) t(1) have "\<exists>k\<le>length ?b.
              [100, 100] = replicate k 100 \<and> ?s' = tq_run (concat (take k ?b)) ?s \<and>
              queue ?s' = [] \<and> running ?s' = 0 \<and>
              (\<forall>j<k. \<not> (queue (tq_run (concat (take j ?b)) ?s) = [] \<and>
                         running (tq_run (concat (take j ?b)) ?s) = 0))"
    by (intro exI[of _ 2]) (simp add: numeral_2_eq_2)
  with drain_returns_when_idle[OF h e(1), of ?b "[100, 100]" ?s']
  have a: "drain ?b ?s = Some ([100, 100], ?s')" by blast
  have q: "tq_size queue1 = 0 \<and> running queue1 = 0" by code_simp
  with drain_returns_when_idle[OF h e(2), of "[]"]
  have b: "drain [] queue1 = Some ([], queue1)" by blast
  have c: "drain [[Settle 0 (Fulfilled ''a'')]] ?s = None"
    using v(3,4) by (simp add: tq_run_Nil)
  from a b c show ?thesis by simp
qed

end
